theory Spec2Isabelle
  imports Main
begin

section \<open>JavaScript strings\<close>

text \<open>
  The document and every path are JavaScript strings, modelled as \<^typ>\<open>string\<close>.
  The characters the three regular expressions tell apart are all in that range; of
  the four line terminators of ECMAScript only LF and CR are.
\<close>

definition startsWith :: "string \<Rightarrow> string \<Rightarrow> bool" where
  "startsWith s p = (take (length p) s = p)"

definition endsWith :: "string \<Rightarrow> string \<Rightarrow> bool" where
  "endsWith s p = (length p \<le> length s \<and> drop (length s - length p) s = p)"

text \<open>
  \<^verbatim>\<open>GetSubstitution\<close> of ECMAScript for a string pattern (no captures, no named
  groups): in the replacement text \<^verbatim>\<open>$$\<close> stands for a dollar sign, \<^verbatim>\<open>$&\<close> for the
  matched text, \<^verbatim>\<open>$\<close> followed by a backquote for the text before the match and
  \<^verbatim>\<open>$\<close> followed by a quote for the text after it. A dollar sign followed by anything
  else (a digit or \<^verbatim>\<open><\<close> included, since there is no capture) is copied.
\<close>

fun getSubstitution :: "string \<Rightarrow> string \<Rightarrow> string \<Rightarrow> string \<Rightarrow> string" where
  "getSubstitution m pre post [] = []"
| "getSubstitution m pre post [c] = [c]"
| "getSubstitution m pre post (c # d # t) =
     (if c = CHR ''$'' then
        (if d = CHR ''$'' then CHR ''$'' # getSubstitution m pre post t
         else if d = CHR ''&'' then m @ getSubstitution m pre post t
         else if d = CHR 0x60 then pre @ getSubstitution m pre post t
         else if d = CHR 0x27 then post @ getSubstitution m pre post t
         else c # getSubstitution m pre post (d # t))
      else c # getSubstitution m pre post (d # t))"

text \<open>
  \<^verbatim>\<open>String.prototype.replaceAll\<close> with a string pattern: the occurrences are found
  from left to right, each search starting after the previous occurrence, and each is
  replaced by the expansion of the replacement text. \<open>pre\<close> is the part of the
  subject already passed, \<open>rest\<close> the part still to scan.
\<close>

function replaceAll_from :: "string \<Rightarrow> string \<Rightarrow> string \<Rightarrow> string \<Rightarrow> string" where
  "replaceAll_from pat rep pre rest =
     (if pat \<noteq> [] \<and> startsWith rest pat
      then getSubstitution pat pre (drop (length pat) rest) rep
             @ replaceAll_from pat rep (pre @ pat) (drop (length pat) rest)
      else (case rest of
              [] \<Rightarrow> []
            | c # cs \<Rightarrow> c # replaceAll_from pat rep (pre @ [c]) cs))"
  by pat_completeness auto
termination
proof (relation "measure (\<lambda>(pat, rep, pre, rest). length rest)")
  fix pat rep pre :: string and rest :: string
  assume "pat \<noteq> [] \<and> startsWith rest pat"
  then have "rest \<noteq> []" and "0 < length pat"
    by (auto simp: startsWith_def)
  then have "length (drop (length pat) rest) < length rest"
    by simp
  then show "((pat, rep, pre @ pat, drop (length pat) rest), (pat, rep, pre, rest))
               \<in> measure (\<lambda>(pat, rep, pre, rest). length rest)"
    by simp
qed auto

declare replaceAll_from.simps [simp del]

text \<open>The empty pattern occurs before every character and at the end.\<close>

fun replaceAll_empty :: "string \<Rightarrow> string \<Rightarrow> string \<Rightarrow> string" where
  "replaceAll_empty rep pre [] = getSubstitution [] pre [] rep"
| "replaceAll_empty rep pre (c # cs) =
     getSubstitution [] pre (c # cs) rep @ c # replaceAll_empty rep (pre @ [c]) cs"

definition replaceAll :: "string \<Rightarrow> string \<Rightarrow> string \<Rightarrow> string" where
  "replaceAll s pat rep =
     (if pat = [] then replaceAll_empty rep [] s else replaceAll_from pat rep [] s)"

section \<open>Regular expressions\<close>

text \<open>
  The fragment of ECMAScript's pattern language the three expressions of the source
  use. A matcher maps a state, the input still to read and the captures so far, to
  the states it can end in, in the order in which backtracking tries them: the first
  is the result of the match.
\<close>

datatype regex =
    Lit string
  | Dot
  | AnyChar
  | Bol
  | Eps
  | Seq regex regex
  | Alt regex regex
  | Grp nat regex
  | Star bool regex
  | Plus bool regex
  | Opt bool regex

type_synonym mstate = "string \<times> (nat \<Rightarrow> string option)"

definition is_line_terminator :: "char \<Rightarrow> bool" where
  "is_line_terminator c = (c = CHR 0x0A \<or> c = CHR 0x0D)"

text \<open>
  \<^verbatim>\<open>RepeatMatcher\<close> with no upper bound: an iteration that reads no character is
  rejected, a greedy quantifier tries one more iteration before it tries to stop, a
  lazy one the other way round. The flag is true for the greedy quantifier.
\<close>

function star :: "bool \<Rightarrow> (mstate \<Rightarrow> mstate list) \<Rightarrow> mstate \<Rightarrow> mstate list" where
  "star greedy m x =
     (let more = concat (map (\<lambda>y. if length (fst y) < length (fst x)
                                     then star greedy m y else []) (m x))
      in if greedy then more @ [x] else x # more)"
  by pat_completeness auto
termination
  by (relation "measure (\<lambda>(g, m, x). length (fst x))") auto

declare star.simps [simp del]

primrec run :: "string \<Rightarrow> regex \<Rightarrow> mstate \<Rightarrow> mstate list" where
  "run s (Lit l) = (\<lambda>(r, c). if startsWith r l then [(drop (length l) r, c)] else [])"
| "run s Dot = (\<lambda>(r, c). case r of [] \<Rightarrow> []
                  | a # r' \<Rightarrow> if is_line_terminator a then [] else [(r', c)])"
| "run s AnyChar = (\<lambda>(r, c). case r of [] \<Rightarrow> [] | a # r' \<Rightarrow> [(r', c)])"
| "run s Bol = (\<lambda>(r, c). if length r = length s then [(r, c)] else [])"
| "run s Eps = (\<lambda>x. [x])"
| "run s (Seq p q) = (\<lambda>x. concat (map (run s q) (run s p x)))"
| "run s (Alt p q) = (\<lambda>x. run s p x @ run s q x)"
| "run s (Grp n p) = (\<lambda>(r, c).
       map (\<lambda>(r', c'). (r', c'(n \<mapsto> take (length r - length r') r))) (run s p (r, c)))"
| "run s (Star g p) = star g (run s p)"
| "run s (Plus g p) = (\<lambda>x. concat (map (star g (run s p)) (run s p x)))"
| "run s (Opt g p) = (\<lambda>x.
       let once = filter (\<lambda>y. length (fst y) < length (fst x)) (run s p x)
       in if g then once @ [x] else x # once)"

record rmatch =
  index :: nat
  matched :: string
  groups :: "nat \<Rightarrow> string option"

definition mk_match :: "string \<Rightarrow> string \<Rightarrow> mstate \<Rightarrow> rmatch" where
  "mk_match s r y =
     \<lparr>index = length s - length r,
      matched = take (length r - length (fst y)) r,
      groups = snd y\<rparr>"

text \<open>
  \<^verbatim>\<open>String.prototype.matchAll\<close> with a global expression: the start positions are
  tried from \<^verbatim>\<open>lastIndex\<close> on, the next search starts where the match ended, one
  character further when the match was empty. \<open>r\<close> is the input from
  \<^verbatim>\<open>lastIndex\<close> on.
\<close>

function match_all :: "regex \<Rightarrow> string \<Rightarrow> string \<Rightarrow> rmatch list" where
  "match_all re s r =
     (case run s re (r, Map.empty) of
        [] \<Rightarrow> (case r of [] \<Rightarrow> [] | a # r' \<Rightarrow> match_all re s r')
      | y # ys \<Rightarrow>
          mk_match s r y #
            (if length (fst y) < length r then match_all re s (fst y)
             else (case r of [] \<Rightarrow> [] | a # r' \<Rightarrow> match_all re s r')))"
  by pat_completeness auto
termination
  by (relation "measure (\<lambda>(re, s, r). length r)") auto

declare match_all.simps [simp del]

definition matchAll :: "string \<Rightarrow> regex \<Rightarrow> rmatch list" where
  "matchAll s re = match_all re s s"

text \<open>The first match of an expression without the global flag, from position 0.\<close>

fun exec_from :: "regex \<Rightarrow> string \<Rightarrow> string \<Rightarrow> rmatch option" where
  "exec_from re s [] =
     (case run s re ([], Map.empty) of [] \<Rightarrow> None | y # ys \<Rightarrow> Some (mk_match s [] y))"
| "exec_from re s (a # r) =
     (case run s re (a # r, Map.empty) of
        [] \<Rightarrow> exec_from re s r
      | y # ys \<Rightarrow> Some (mk_match s (a # r) y))"

text \<open>
  \<^verbatim>\<open>String.prototype.replace\<close> with such an expression and the empty replacement:
  the first match is cut out.
\<close>

definition replace_first_empty :: "string \<Rightarrow> regex \<Rightarrow> string" where
  "replace_first_empty s re =
     (case exec_from re s s of
        None \<Rightarrow> s
      | Some m \<Rightarrow> take (index m) s @ drop (index m + length (matched m)) s)"

subsection \<open>The three expressions of the source\<close>

definition extensions :: regex where
  "extensions =
     Alt (Lit ''png'') (Alt (Lit ''jpg'') (Alt (Lit ''jpeg'') (Alt (Lit ''gif'')
       (Alt (Lit ''svg'') (Alt (Lit ''webp'') (Lit ''excalidraw''))))))"

definition MD_REGEX :: regex where
  "MD_REGEX =
     Seq (Lit ''!['') (Seq (Grp 1 (Star True Dot)) (Seq (Lit '']('')
       (Seq (Grp 2 (Seq (Star False Dot) (Seq (Lit ''.'') (Grp 3 extensions))))
            (Lit '')''))))"

definition WIKI_REGEX :: regex where
  "WIKI_REGEX =
     Seq (Lit ''![['')
       (Seq (Grp 1 (Seq (Star False Dot) (Seq (Lit ''.'') (Grp 2 extensions))))
         (Seq (Opt True (Grp 3 (Alt Eps (Star True Dot)))) (Lit '']]'')))"

definition PROPERTIES_REGEX :: regex where
  "PROPERTIES_REGEX =
     Seq Bol (Seq (Lit ''---'') (Seq (Plus False AnyChar) (Lit [CHR ''-'', CHR ''-'', CHR ''-'', CHR 0x0A])))"

section \<open>The image tag processor\<close>

record image =
  name :: string
  path :: string
  fullPath :: string
  url :: string
  source :: string

record settings =
  attachmentLocation :: string
  imageAltText :: bool
  deleteAttachments :: bool
  replaceOriginalDoc :: bool
  ignoreProperties :: bool

datatype js_error = URIError | Error string

datatype 'a promise = Fulfilled 'a | Rejected js_error | Pending

text \<open>What the upload service does with one request: it succeeds with a URL or fails
  with an error whose message is given.\<close>

datatype upload_result = Succeeds string | Fails string

text \<open>
  The collaborators of the processor: the editor of the active view (none when no
  Markdown view is active), the vault and its adapter, the injected uploader, and the
  library functions \<^verbatim>\<open>decodeURI\<close> (no result when it throws),
  \<^verbatim>\<open>path.dirname\<close> and the \<^verbatim>\<open>name\<close> field of \<^verbatim>\<open>path.parse\<close>. A file handle is
  modelled by its path. An upload answers with the moment at which it settles and
  with its result.
\<close>

record host =
  editorText :: "string option"
  getBasePath :: string
  getAvailablePathForAttachment :: "string \<Rightarrow> string"
  normalizePath :: "string \<Rightarrow> string"
  getAbstractFileByPath :: "string \<Rightarrow> string option"
  readBinary :: "string \<Rightarrow> string"
  upload :: "string \<Rightarrow> string \<Rightarrow> string \<Rightarrow> nat \<times> upload_result"
  decodeURI :: "string \<Rightarrow> string option"
  path_dirname :: "string \<Rightarrow> string"
  path_parse_name :: "string \<Rightarrow> string"

datatype event =
    GetAvailablePath string
  | GetAbstractFile string
  | ShowNotice string
  | ConsoleLog string
  | ReadBinary string
  | Upload string string string
  | Delete "string option"
  | SetValue string
  | ClipboardWriteText string

definition ACTION_PUBLISH :: string where
  "ACTION_PUBLISH = ''PUBLISH''"

subsection \<open>getImageLists\<close>

text \<open>\<^verbatim>\<open>match[n]\<close>. Group 1 of the wiki expression and group 2 of the inline expression
  take part in every match (lemmas \<open>wiki_match_group\<close> and \<open>md_match_group\<close>).\<close>

definition group_text :: "rmatch \<Rightarrow> nat \<Rightarrow> string" where
  "group_text m n = (case groups m n of None \<Rightarrow> [] | Some g \<Rightarrow> g)"

definition wiki_image :: "settings \<Rightarrow> rmatch \<Rightarrow> image" where
  "wiki_image st m =
     (let nm = group_text m 1;
          path_name = (if endsWith nm ''.excalidraw'' then nm @ ''.png'' else nm)
      in \<lparr>name = nm,
          path = attachmentLocation st @ ''/'' @ path_name,
          fullPath = [],
          url = [],
          source = matched m\<rparr>)"

fun md_images :: "host \<Rightarrow> rmatch list \<Rightarrow> js_error + image list" where
  "md_images h [] = Inr []"
| "md_images h (m # ms) =
     (if startsWith (group_text m 2) ''http://'' \<or> startsWith (group_text m 2) ''https://''
      then md_images h ms
      else (case decodeURI h (group_text m 2) of
              None \<Rightarrow> Inl URIError
            | Some decodedPath \<Rightarrow>
                (case md_images h ms of
                   Inl e \<Rightarrow> Inl e
                 | Inr images \<Rightarrow>
                     Inr (\<lparr>name = decodedPath, path = decodedPath, fullPath = [],
                           url = [], source = matched m\<rparr> # images))))"

definition getImageLists :: "settings \<Rightarrow> host \<Rightarrow> string \<Rightarrow> js_error + image list" where
  "getImageLists st h v =
     (let wikiMatches = matchAll v WIKI_REGEX;
          mdMatches = matchAll v MD_REGEX
      in case md_images h mdMatches of
           Inl e \<Rightarrow> Inl e
         | Inr images \<Rightarrow> Inr (map (wiki_image st) wikiMatches @ images))"

definition getValue :: "host \<Rightarrow> string" where
  "getValue h = (case editorText h of None \<Rightarrow> [] | Some v \<Rightarrow> v)"

subsection \<open>process\<close>

text \<open>
  The first loop of \<^verbatim>\<open>process\<close>: each image is resolved in turn; the first one whose
  file is not found ends the loop. The result is the effects of the loop, in order,
  and the uploads it has started, each with the image it belongs to.
\<close>

definition resolved :: "host \<Rightarrow> image \<Rightarrow> image" where
  "resolved h img =
     img\<lparr>fullPath :=
           path_dirname h (getAvailablePathForAttachment h (normalizePath h (path img)))
             @ ''/'' @ name img\<rparr>"

definition not_found_notice :: "image \<Rightarrow> string" where
  "not_found_notice img =
     ''Can NOT locate '' @ name img @ '' with '' @ fullPath img
       @ '', please check image path or attachment option in plugin setting!''"

fun resolve_loop :: "host \<Rightarrow> image list \<Rightarrow> event list \<times> (image \<times> nat \<times> upload_result) list" where
  "resolve_loop h [] = ([], [])"
| "resolve_loop h (image0 # images) =
     (let img = resolved h image0;
          lookups = [GetAvailablePath (normalizePath h (path image0)),
                     GetAbstractFile (normalizePath h (fullPath img))]
      in if getAbstractFileByPath h (normalizePath h (fullPath img)) = None
         then (lookups @ [ShowNotice (not_found_notice img),
                          ConsoleLog (normalizePath h (fullPath img) @ '' not exist'')], [])
         else
           (let buf = readBinary h (fullPath img);
                ctx = getBasePath h @ ''/'' @ fullPath img;
                (evs, started) = resolve_loop h images
            in (lookups @ [ReadBinary (fullPath img), Upload buf (name img) ctx] @ evs,
                (img, upload h buf (name img) ctx) # started)))"

text \<open>
  The promise the loop pushes for one upload: it is resolved with the image, its URL
  filled in, when the upload succeeds. When the upload fails the handler shows a
  notice and nothing resolves or rejects the promise.
\<close>

definition upload_promise :: "image \<times> nat \<times> upload_result \<Rightarrow> image promise" where
  "upload_promise u =
     (case snd (snd u) of
        Succeeds imgUrl \<Rightarrow> Fulfilled ((fst u)\<lparr>url := imgUrl\<rparr>)
      | Fails msg \<Rightarrow> Pending)"

definition upload_failed :: "image \<times> nat \<times> upload_result \<Rightarrow> bool" where
  "upload_failed u = (case snd (snd u) of Succeeds imgUrl \<Rightarrow> False | Fails msg \<Rightarrow> True)"

definition failure_notice :: "image \<times> nat \<times> upload_result \<Rightarrow> string" where
  "failure_notice u =
     (case snd (snd u) of
        Succeeds imgUrl \<Rightarrow> []
      | Fails msg \<Rightarrow>
          ''Upload '' @ path (fst u) @ '' failed, remote server returned an error: '' @ msg)"

text \<open>The notices of the failed uploads, in the order in which the uploads settle.\<close>

definition failure_notices :: "(image \<times> nat \<times> upload_result) list \<Rightarrow> string list" where
  "failure_notices started =
     map failure_notice (sort_key (\<lambda>u. fst (snd u)) (filter upload_failed started))"

text \<open>
  \<^verbatim>\<open>Promise.all\<close>: fulfilled with the values in the order of the array once every
  promise is fulfilled, rejected when one is rejected, pending otherwise.
\<close>

fun promise_all :: "'a promise list \<Rightarrow> 'a list promise" where
  "promise_all [] = Fulfilled []"
| "promise_all (p # ps) =
     (case p of
        Rejected e \<Rightarrow> Rejected e
      | Fulfilled a \<Rightarrow>
          (case promise_all ps of
             Fulfilled as \<Rightarrow> Fulfilled (a # as)
           | Rejected e \<Rightarrow> Rejected e
           | Pending \<Rightarrow> Pending)
      | Pending \<Rightarrow>
          (case promise_all ps of
             Rejected e \<Rightarrow> Rejected e
           | Fulfilled as \<Rightarrow> Pending
           | Pending \<Rightarrow> Pending))"

text \<open>The handler of \<^verbatim>\<open>Promise.all\<close>: the substitution loop first.\<close>

definition altText :: "settings \<Rightarrow> host \<Rightarrow> image \<Rightarrow> string" where
  "altText st h img =
     (if imageAltText st
      then replaceAll (replaceAll (path_parse_name h (name img)) ''-'' '' '') ''_'' '' ''
      else [])"

definition substitute :: "settings \<Rightarrow> host \<Rightarrow> string \<Rightarrow> image \<Rightarrow> string" where
  "substitute st h v img =
     replaceAll v (source img) (''!['' @ altText st h img @ '']('' @ url img @ '')'')"

fun rewrite_loop :: "settings \<Rightarrow> host \<Rightarrow> string \<Rightarrow> image list \<Rightarrow> string \<times> event list" where
  "rewrite_loop st h v [] = (v, [])"
| "rewrite_loop st h v (img # images) =
     (let v' = substitute st h v img;
          deleted = (if deleteAttachments st
                     then [Delete (getAbstractFileByPath h (fullPath img))] else []);
          (v'', evs) = rewrite_loop st h v' images
      in (v'', deleted @ evs))"

definition finish :: "settings \<Rightarrow> host \<Rightarrow> string \<Rightarrow> string \<Rightarrow> image list \<Rightarrow> event list \<times> unit promise" where
  "finish st h action v images =
     (let (v1, evs) = rewrite_loop st h v images;
          written = (if replaceOriginalDoc st \<and> editorText h \<noteq> None then [SetValue v1] else []);
          v2 = (if ignoreProperties st then replace_first_empty v1 PROPERTIES_REGEX else v1)
      in if action = ACTION_PUBLISH
         then (evs @ written @ [ClipboardWriteText v2, ShowNotice ''Copied to clipboard''],
               Fulfilled ())
         else (evs @ written, Rejected (Error ''invalid action!'')))"

text \<open>
  What one call of \<^verbatim>\<open>process\<close> does: the effects of the first loop, the notices of
  the failed uploads, the effects of the handler, and the state the returned promise
  ends in.
\<close>

record run_result =
  loop_events :: "event list"
  upload_notices :: "string list"
  finish_events :: "event list"
  outcome :: "unit promise"

type_synonym started_upload = "image \<times> nat \<times> upload_result"

text \<open>\<^verbatim>\<open>Promise.all(promises).then(...)\<close>, for the uploads the first loop has started.\<close>

definition after_uploads ::
  "settings \<Rightarrow> host \<Rightarrow> string \<Rightarrow> event list \<Rightarrow> started_upload list \<Rightarrow> run_result" where
  "after_uploads st h action evs started =
     (case promise_all (map upload_promise started) of
        Fulfilled uploaded \<Rightarrow>
          (let (fevs, result) = finish st h action (getValue h) uploaded
           in \<lparr>loop_events = evs, upload_notices = failure_notices started,
               finish_events = fevs, outcome = result\<rparr>)
      | Rejected e \<Rightarrow>
          \<lparr>loop_events = evs, upload_notices = failure_notices started,
           finish_events = [], outcome = Rejected e\<rparr>
      | Pending \<Rightarrow>
          \<lparr>loop_events = evs, upload_notices = failure_notices started,
           finish_events = [], outcome = Pending\<rparr>)"

definition process :: "settings \<Rightarrow> host \<Rightarrow> string \<Rightarrow> run_result" where
  "process st h action =
     (case getImageLists st h (getValue h) of
        Inl e \<Rightarrow>
          \<lparr>loop_events = [], upload_notices = [], finish_events = [], outcome = Rejected e\<rparr>
      | Inr images \<Rightarrow>
          (let (evs, started) = resolve_loop h images
           in after_uploads st h action evs started))"

subsection \<open>A concrete host\<close>

text \<open>
  \<^verbatim>\<open>path.dirname\<close> and \<^verbatim>\<open>path.parse(p).name\<close> of Node.js for POSIX paths: the
  directory is the path up to the slash before the last component (\<^verbatim>\<open>.\<close> when there
  is none), the name is the last component without its extension, the extension
  starting at the last dot unless that dot is the first character of the component or
  the component is \<^verbatim>\<open>..\<close>.
\<close>

definition strip_trailing_slashes :: "string \<Rightarrow> string" where
  "strip_trailing_slashes s = rev (dropWhile (\<lambda>c. c = CHR ''/'') (rev s))"

definition posix_dirname :: "string \<Rightarrow> string" where
  "posix_dirname s =
     (case s of
        [] \<Rightarrow> ''.''
      | c # cs \<Rightarrow>
          (let t = strip_trailing_slashes cs;
               d = length (takeWhile (\<lambda>x. x \<noteq> CHR ''/'') (rev t))
           in if CHR ''/'' \<notin> set t then (if c = CHR ''/'' then ''/'' else ''.'')
              else if c = CHR ''/'' \<and> length t - d = 1 then ''//''
              else take (length t - d) s))"

definition posix_parse_name :: "string \<Rightarrow> string" where
  "posix_parse_name s =
     (let base = rev (takeWhile (\<lambda>x. x \<noteq> CHR ''/'') (rev (strip_trailing_slashes s)));
          ext = length (takeWhile (\<lambda>x. x \<noteq> CHR ''.'') (rev base));
          stem = take (length base - ext - 1) base
      in if CHR ''.'' \<notin> set base \<or> stem = [] \<or> base = ''..'' then base else stem)"

text \<open>
  A vault whose files are given by \<open>present\<close>, with the document \<open>doc\<close> in the
  active editor, paths that are already normal and free for attachments, and an
  upload service that answers by the name of the file.
\<close>

definition vault_host :: "string \<Rightarrow> (string \<Rightarrow> bool) \<Rightarrow> (string \<Rightarrow> nat \<times> upload_result) \<Rightarrow> host" where
  "vault_host doc present service =
     \<lparr>editorText = Some doc,
      getBasePath = ''/vault'',
      getAvailablePathForAttachment = (\<lambda>p. p),
      normalizePath = (\<lambda>p. p),
      getAbstractFileByPath = (\<lambda>p. if present p then Some p else None),
      readBinary = (\<lambda>p. ''<'' @ p @ ''>''),
      upload = (\<lambda>buf nm ctx. service nm),
      decodeURI = Some,
      path_dirname = posix_dirname,
      path_parse_name = posix_parse_name\<rparr>"

definition publish_settings :: "bool \<Rightarrow> bool \<Rightarrow> bool \<Rightarrow> bool \<Rightarrow> settings" where
  "publish_settings alt del repl ign =
     \<lparr>attachmentLocation = ''assets'', imageAltText = alt, deleteAttachments = del,
      replaceOriginalDoc = repl, ignoreProperties = ign\<rparr>"

text \<open>A wiki reference and an inline reference on one line; the upload of the second
  settles first.\<close>

definition two_on_a_line :: host where
  "two_on_a_line =
     vault_host ''![[a.png]] ![x](b.png)'' (\<lambda>p. True)
       (\<lambda>n. if n = ''a.png'' then (2, Succeeds ''https://cdn/a.png'')
             else (1, Succeeds ''https://cdn/b.png''))"

text \<open>Three wiki references on three lines; the file of the second is missing.\<close>

definition three_lines :: host where
  "three_lines =
     vault_host (''![[a.png]]'' @ [CHR 0x0A] @ ''![[b.png]]'' @ [CHR 0x0A] @ ''![[c.png]]'')
       (\<lambda>p. p \<noteq> ''assets/b.png'') (\<lambda>n. (0, Succeeds (''https://cdn/'' @ n)))"

subsection \<open>Notions for stating the properties\<close>

text \<open>The image an upload's promise is resolved with: its URL is the one returned.\<close>

definition with_url :: "started_upload \<Rightarrow> image" where
  "with_url u =
     (case snd (snd u) of Succeeds imgUrl \<Rightarrow> (fst u)\<lparr>url := imgUrl\<rparr> | Fails msg \<Rightarrow> fst u)"

text \<open>
  Modelled from the spec: the order of substitution as section 4.4 words it, "the
  order the successful results were produced in", that is the successful uploads
  sorted by the moment at which they settle. It is compared with the order
  \<^verbatim>\<open>Promise.all\<close> gives.
\<close>

definition settle_order :: "started_upload list \<Rightarrow> image list" where
  "settle_order started =
     map with_url (sort_key (\<lambda>u. fst (snd u)) (filter (\<lambda>u. \<not> upload_failed u) started))"

text \<open>Whether an inline match is skipped as remote, and whether a match is the text found
  at its index.\<close>

definition is_remote :: "rmatch \<Rightarrow> bool" where
  "is_remote m \<longleftrightarrow>
     startsWith (group_text m 2) ''http://'' \<or> startsWith (group_text m 2) ''https://''"

definition occurs_at :: "string \<Rightarrow> rmatch \<Rightarrow> bool" where
  "occurs_at s m \<longleftrightarrow> take (length (matched m)) (drop (index m) s) = matched m"

text \<open>The part of the input before its first line terminator, and the closing delimiter
  of the header block.\<close>

definition line_part :: "string \<Rightarrow> string" where
  "line_part r = takeWhile (\<lambda>a. \<not> is_line_terminator a) r"


text \<open>The extensions the two expressions allow, whether a dot and an allowed extension
  stand at the start of a text, and whether a text has no line terminator.\<close>

definition allowed_extensions :: "string list" where
  "allowed_extensions = [''png'', ''jpg'', ''jpeg'', ''gif'', ''svg'', ''webp'', ''excalidraw'']"

definition dotted_extension_at :: "string \<Rightarrow> bool" where
  "dotted_extension_at r = list_ex (\<lambda>e. startsWith r (CHR ''.'' # e)) allowed_extensions"

definition one_line :: "string \<Rightarrow> bool" where
  "one_line r = list_all (\<lambda>a. \<not> is_line_terminator a) r"


text \<open>The same host with other moments of settling.\<close>

definition retimed :: "host \<Rightarrow> (string \<Rightarrow> string \<Rightarrow> string \<Rightarrow> nat) \<Rightarrow> host" where
  "retimed h t = h\<lparr>upload := \<lambda>buf nm ctx. (t buf nm ctx, snd (upload h buf nm ctx))\<rparr>"

text \<open>Whether the file of an image is found, what the first loop does for an image
  that is found, the upload it starts for it, and what it does for one that is not.\<close>

definition exists_locally :: "host \<Rightarrow> image \<Rightarrow> bool" where
  "exists_locally h img =
     (getAbstractFileByPath h (normalizePath h (fullPath (resolved h img))) \<noteq> None)"

definition found_events :: "host \<Rightarrow> image \<Rightarrow> event list" where
  "found_events h img =
     [GetAvailablePath (normalizePath h (path img)),
      GetAbstractFile (normalizePath h (fullPath (resolved h img))),
      ReadBinary (fullPath (resolved h img)),
      Upload (readBinary h (fullPath (resolved h img))) (name img)
        (getBasePath h @ ''/'' @ fullPath (resolved h img))]"

definition started_for :: "host \<Rightarrow> image \<Rightarrow> started_upload" where
  "started_for h img =
     (resolved h img,
      upload h (readBinary h (fullPath (resolved h img))) (name img)
        (getBasePath h @ ''/'' @ fullPath (resolved h img)))"

definition missing_events :: "host \<Rightarrow> image \<Rightarrow> event list" where
  "missing_events h img =
     [GetAvailablePath (normalizePath h (path img)),
      GetAbstractFile (normalizePath h (fullPath (resolved h img))),
      ShowNotice (not_found_notice (resolved h img)),
      ConsoleLog (normalizePath h (fullPath (resolved h img)) @ '' not exist'')]"

section \<open>The matchers only read forward\<close>

text \<open>
  Every state a matcher ends in holds a suffix of the input it started with. So the
  test for an iteration that read nothing, and the one for an empty match, may compare
  lengths.
\<close>

lemma star_consumes:
  "(\<And>x y. y \<in> set (m x) \<Longrightarrow> \<exists>k. fst y = drop k (fst x)) \<Longrightarrow>
   y \<in> set (star g m x) \<Longrightarrow> \<exists>k. fst y = drop k (fst x)"
proof (induction g m x arbitrary: y rule: star.induct)
  case (1 greedy m x)
  from "1.prems"(2) consider "y = x"
    | z where "z \<in> set (m x)" "length (fst z) < length (fst x)" "y \<in> set (star greedy m z)"
    by (subst (asm) star.simps) (auto simp: Let_def split: if_splits)
  then show ?case
  proof cases
    case 1
    then have "fst y = drop 0 (fst x)" by simp
    then show ?thesis ..
  next
    case 2
    from "1.IH" [OF 2(1,2) "1.prems"(1) 2(3)] obtain k where k: "fst y = drop k (fst z)"
      by blast
    from "1.prems"(1) [OF 2(1)] obtain j where "fst z = drop j (fst x)" ..
    with k have "fst y = drop (j + k) (fst x)" by (simp add: add.commute)
    then show ?thesis ..
  qed
qed

lemma run_consumes:
  "y \<in> set (run s re x) \<Longrightarrow> \<exists>k. fst y = drop k (fst x)"
proof (induction re arbitrary: x y)
  case (Lit l)
  then show ?case by (cases x) (auto split: if_splits)
next
  case Dot
  then have "fst y = drop 1 (fst x)"
    by (cases x) (auto split: list.splits if_splits)
  then show ?case ..
next
  case AnyChar
  then have "fst y = drop 1 (fst x)"
    by (cases x) (auto split: list.splits if_splits)
  then show ?case ..
next
  case Bol
  then have "fst y = drop 0 (fst x)"
    by (cases x) (auto split: if_splits)
  then show ?case ..
next
  case Eps
  then have "fst y = drop 0 (fst x)" by simp
  then show ?case ..
next
  case (Seq p q)
  then obtain z where z: "z \<in> set (run s p x)" and y: "y \<in> set (run s q z)"
    by auto
  from Seq.IH(1) [OF z] obtain j where "fst z = drop j (fst x)" ..
  moreover from Seq.IH(2) [OF y] obtain k where "fst y = drop k (fst z)" ..
  ultimately have "fst y = drop (j + k) (fst x)" by (simp add: add.commute)
  then show ?case ..
next
  case (Alt p q)
  then have "y \<in> set (run s p x) \<or> y \<in> set (run s q x)" by simp
  then show ?case using Alt.IH by blast
next
  case (Grp n p)
  then obtain z where "z \<in> set (run s p x)" and "fst y = fst z"
    by (cases x) (auto split: prod.splits)
  with Grp.IH show ?case by auto
next
  case (Star g p)
  then show ?case using star_consumes [of "run s p" y g x] by auto
next
  case (Plus g p)
  then obtain z where z: "z \<in> set (run s p x)" and y: "y \<in> set (star g (run s p) z)"
    by auto
  from Plus.IH [OF z] obtain j where "fst z = drop j (fst x)" ..
  moreover from star_consumes [of "run s p" y g z] Plus.IH y
  obtain k where "fst y = drop k (fst z)" by blast
  ultimately have "fst y = drop (j + k) (fst x)" by (simp add: add.commute)
  then show ?case ..
next
  case (Opt g p)
  then have "y = x \<or> y \<in> set (run s p x)"
    by (auto simp: Let_def split: if_splits)
  then show ?case
  proof
    assume "y = x"
    then have "fst y = drop 0 (fst x)" by simp
    then show ?thesis ..
  qed (rule Opt.IH)
qed

lemma run_no_longer: "y \<in> set (run s re (r, c)) \<Longrightarrow> length (fst y) \<le> length r"
  using run_consumes [of y s re "(r, c)"] by auto

text \<open>An iteration reads nothing exactly when it ends where it began.\<close>

lemma run_progress:
  "y \<in> set (run s re x) \<Longrightarrow> length (fst y) < length (fst x) \<longleftrightarrow> fst y \<noteq> fst x"
proof -
  assume "y \<in> set (run s re x)"
  then obtain k where k: "fst y = drop k (fst x)"
    using run_consumes by blast
  show ?thesis
  proof
    assume "length (fst y) < length (fst x)"
    then show "fst y \<noteq> fst x" by auto
  next
    assume "fst y \<noteq> fst x"
    then have "drop k (fst x) \<noteq> fst x"
      by (simp add: k)
    then have "k \<noteq> 0" and "fst x \<noteq> []"
      by (cases k; auto)+
    then show "length (fst y) < length (fst x)"
      by (simp add: k)
  qed
qed

lemma match_all_sorted:
  "length r \<le> length s \<Longrightarrow>
   sorted_wrt (<) (map index (match_all re s r))
   \<and> list_all (\<lambda>m. length s - length r \<le> index m) (match_all re s r)"
proof (induction re s r rule: match_all.induct)
  case (1 re s r)
  show ?case
  proof (cases "run s re (r, Map.empty)")
    case Nil
    show ?thesis
    proof (cases r)
      case Nil
      with \<open>run s re (r, Map.empty) = []\<close> show ?thesis
        by (subst match_all.simps, subst match_all.simps) simp
    next
      case (Cons a r')
      with "1.IH"(1) [OF Nil Cons] "1.prems"
      have "sorted_wrt (<) (map index (match_all re s r'))"
        and "list_all (\<lambda>m. length s - length r' \<le> index m) (match_all re s r')"
        by auto
      then show ?thesis
        using Nil Cons "1.prems"
        by (subst match_all.simps, subst (2) match_all.simps)
           (auto simp: list_all_iff)
    qed
  next
    case (Cons y ys)
    define next_r where "next_r = (if length (fst y) < length r then fst y else tl r)"
    have step: "match_all re s r =
        mk_match s r y # (if r = [] then [] else match_all re s next_r)"
      using Cons by (subst match_all.simps) (auto simp: next_r_def split: list.splits)
    show ?thesis
    proof (cases "r = []")
      case True
      then show ?thesis unfolding step by (simp add: mk_match_def)
    next
      case False
      then have shorter: "length next_r < length r"
        by (auto simp: next_r_def)
      have ih: "sorted_wrt (<) (map index (match_all re s next_r))
          \<and> list_all (\<lambda>m. length s - length next_r \<le> index m) (match_all re s next_r)"
      proof (cases "length (fst y) < length r")
        case True
        with "1.IH"(2) [OF Cons True] "1.prems" show ?thesis
          by (simp add: next_r_def)
      next
        case no: False
        from False obtain a r' where r: "r = a # r'" by (cases r) auto
        with "1.IH"(3) [OF Cons no r] "1.prems" no show ?thesis
          by (simp add: next_r_def)
      qed
      have "index (mk_match s r y) = length s - length r"
        by (simp add: mk_match_def)
      moreover have "length s - length r < length s - length next_r"
        using shorter "1.prems" by arith
      ultimately show ?thesis
        using ih False by (auto simp: step list_all_iff)
    qed
  qed
qed

section \<open>The groups the processor reads\<close>

text \<open>
  A capture, once set, stays set to the end of the match, and every match of the two
  expressions passes through the group whose text the processor reads.
\<close>

lemma star_keeps_group:
  "(\<And>x y. y \<in> set (m x) \<Longrightarrow> snd x n \<noteq> None \<Longrightarrow> snd y n \<noteq> None) \<Longrightarrow>
   y \<in> set (star g m x) \<Longrightarrow> snd x n \<noteq> None \<Longrightarrow> snd y n \<noteq> None"
proof (induction g m x arbitrary: y rule: star.induct)
  case (1 greedy m x)
  from "1.prems"(2) consider "y = x"
    | z where "z \<in> set (m x)" "length (fst z) < length (fst x)" "y \<in> set (star greedy m z)"
    by (subst (asm) star.simps) (auto simp: Let_def split: if_splits)
  then show ?case
  proof cases
    case 1
    with "1.prems"(3) show ?thesis by simp
  next
    case 2
    from "1.prems"(1) [OF 2(1) "1.prems"(3)] have "snd z n \<noteq> None" .
    from "1.IH" [OF 2(1,2) _ 2(3) this] "1.prems"(1) show ?thesis
      by blast
  qed
qed

lemma run_keeps_group:
  "y \<in> set (run s re x) \<Longrightarrow> snd x n \<noteq> None \<Longrightarrow> snd y n \<noteq> None"
proof (induction re arbitrary: x y)
  case (Lit l)
  then show ?case by (cases x) (auto split: if_splits)
next
  case Dot
  then show ?case by (cases x) (auto split: list.splits if_splits)
next
  case AnyChar
  then show ?case by (cases x) (auto split: list.splits if_splits)
next
  case Bol
  then show ?case by (cases x) (auto split: if_splits)
next
  case Eps
  then show ?case by simp
next
  case (Seq p q)
  then obtain z where z: "z \<in> set (run s p x)" and y: "y \<in> set (run s q z)"
    by auto
  from Seq.IH(1) [OF z Seq.prems(2)] have "snd z n \<noteq> None" .
  from Seq.IH(2) [OF y this] show ?case .
next
  case (Alt p q)
  then have "y \<in> set (run s p x) \<or> y \<in> set (run s q x)" by simp
  then show ?case using Alt.IH Alt.prems(2) by blast
next
  case (Grp k p)
  then obtain z where z: "z \<in> set (run s p x)"
    and y: "snd y = (snd z)(k \<mapsto> take (length (fst x) - length (fst z)) (fst x))"
    by (cases x) (auto split: prod.splits)
  from Grp.IH [OF z Grp.prems(2)] have "snd z n \<noteq> None" .
  with y show ?case by simp
next
  case (Star g p)
  from Star.prems(1) have "y \<in> set (star g (run s p) x)" by simp
  from star_keeps_group [OF _ this Star.prems(2)] Star.IH show ?case
    by blast
next
  case (Plus g p)
  then obtain z where z: "z \<in> set (run s p x)" and y: "y \<in> set (star g (run s p) z)"
    by auto
  from Plus.IH [OF z Plus.prems(2)] have "snd z n \<noteq> None" .
  from star_keeps_group [OF _ y this] Plus.IH show ?case
    by blast
next
  case (Opt g p)
  then have "y = x \<or> y \<in> set (run s p x)"
    by (auto simp: Let_def split: if_splits)
  then show ?case
    using Opt.IH Opt.prems(2) by blast
qed

lemma run_sets_group:
  "y \<in> set (run s (Grp n p) x) \<Longrightarrow> snd y n \<noteq> None"
  by (cases x) (auto split: prod.splits)

lemma match_all_groups:
  "(\<And>r y. y \<in> set (run s re (r, Map.empty)) \<Longrightarrow> snd y n \<noteq> None) \<Longrightarrow>
   list_all (\<lambda>m. groups m n \<noteq> None) (match_all re s r)"
proof (induction re s r rule: match_all.induct)
  case (1 re s r)
  show ?case
  proof (cases "run s re (r, Map.empty)")
    case Nil
    then show ?thesis
      using "1.IH"(1) [OF Nil] "1.prems"
      by (subst match_all.simps) (auto split: list.splits)
  next
    case (Cons y ys)
    then have "y \<in> set (run s re (r, Map.empty))" by simp
    then have "snd y n \<noteq> None" by (rule "1.prems")
    then show ?thesis
      using "1.IH"(2) [OF Cons] "1.IH"(3) [OF Cons] "1.prems"
      by (subst match_all.simps) (auto simp: Cons mk_match_def split: list.splits)
  qed
qed

lemma run_Seq_elim:
  "y \<in> set (run s (Seq p q) x) \<Longrightarrow> \<exists>z. z \<in> set (run s p x) \<and> y \<in> set (run s q z)"
  by auto

lemma wiki_match_group: "list_all (\<lambda>m. groups m 1 \<noteq> None) (matchAll v WIKI_REGEX)"
proof -
  have "snd y 1 \<noteq> None" if "y \<in> set (run v WIKI_REGEX (r, Map.empty))" for r y
  proof -
    from that [unfolded WIKI_REGEX_def] obtain z0 where
      "y \<in> set (run v (Seq (Grp 1 (Seq (Star False Dot) (Seq (Lit ''.'') (Grp 2 extensions))))
         (Seq (Opt True (Grp 3 (Alt Eps (Star True Dot)))) (Lit '']]''))) z0)"
      using run_Seq_elim by blast
    then obtain z where "z \<in> set (run v (Grp 1 (Seq (Star False Dot)
          (Seq (Lit ''.'') (Grp 2 extensions)))) z0)"
      and "y \<in> set (run v (Seq (Opt True (Grp 3 (Alt Eps (Star True Dot)))) (Lit '']]'')) z)"
      using run_Seq_elim by blast
    then show ?thesis
      using run_sets_group run_keeps_group by blast
  qed
  then show ?thesis
    unfolding matchAll_def by (rule match_all_groups)
qed

lemma md_match_group: "list_all (\<lambda>m. groups m 2 \<noteq> None) (matchAll v MD_REGEX)"
proof -
  have "snd y 2 \<noteq> None" if "y \<in> set (run v MD_REGEX (r, Map.empty))" for r y
  proof -
    from that [unfolded MD_REGEX_def] obtain z0 where
      "y \<in> set (run v (Seq (Grp 1 (Star True Dot)) (Seq (Lit '']('')
         (Seq (Grp 2 (Seq (Star False Dot) (Seq (Lit ''.'') (Grp 3 extensions))))
              (Lit '')'')))) z0)"
      using run_Seq_elim by blast
    then obtain z1 where
      "y \<in> set (run v (Seq (Lit '']('')
         (Seq (Grp 2 (Seq (Star False Dot) (Seq (Lit ''.'') (Grp 3 extensions))))
              (Lit '')''))) z1)"
      using run_Seq_elim by blast
    then obtain z2 where
      "y \<in> set (run v (Seq (Grp 2 (Seq (Star False Dot) (Seq (Lit ''.'') (Grp 3 extensions))))
              (Lit '')'')) z2)"
      using run_Seq_elim by blast
    then obtain z where "z \<in> set (run v (Grp 2 (Seq (Star False Dot)
          (Seq (Lit ''.'') (Grp 3 extensions)))) z2)"
      and "y \<in> set (run v (Lit '')'') z)"
      using run_Seq_elim by blast
    then show ?thesis
      using run_sets_group run_keeps_group by blast
  qed
  then show ?thesis
    unfolding matchAll_def by (rule match_all_groups)
qed

section \<open>What the quantifiers of the three expressions try\<close>

text \<open>
  A lazy star over the dot tries to stop after 0, 1, 2, ... characters of the line, a
  greedy one the other way round; a lazy star over \<^verbatim>\<open>[\s\S]\<close> goes on to the end of
  the input.
\<close>

lemma upt_shift: "map f [0..<Suc (Suc n)] = f 0 # map (\<lambda>k. f (Suc k)) [0..<Suc n]"
proof -
  have "[0..<Suc (Suc n)] = 0 # map Suc [0..<Suc n]"
    by (simp only: map_Suc_upt upt_conv_Cons [of 0 "Suc (Suc n)"])
  then show ?thesis
    by (simp only: list.map map_map o_def)
qed

lemma lazy_dots:
  "star False (run s Dot) (r, c)
     = map (\<lambda>k. (drop k r, c)) [0..<Suc (length (line_part r))]"
proof (induction r)
  case Nil
  show ?case by (subst star.simps) (simp add: line_part_def)
next
  case (Cons a r)
  show ?case
  proof (cases "is_line_terminator a")
    case True
    then show ?thesis by (subst star.simps) (simp add: line_part_def)
  next
    case False
    then have "star False (run s Dot) (a # r, c)
        = (a # r, c) # star False (run s Dot) (r, c)"
      by (subst star.simps) simp
    also have "\<dots> = (a # r, c) # map (\<lambda>k. (drop (Suc k) (a # r), c)) [0..<Suc (length (line_part r))]"
      by (simp only: Cons drop_Suc_Cons)
    also have "\<dots> = map (\<lambda>k. (drop k (a # r), c)) [0..<Suc (Suc (length (line_part r)))]"
      by (simp only: upt_shift drop_0)
    finally show ?thesis
      using False by (simp add: line_part_def)
  qed
qed


lemma greedy_dots:
  "star True (run s Dot) (r, c)
     = map (\<lambda>k. (drop k r, c)) (rev [0..<Suc (length (line_part r))])"
proof (induction r)
  case Nil
  show ?case by (subst star.simps) (simp add: line_part_def)
next
  case (Cons a r)
  show ?case
  proof (cases "is_line_terminator a")
    case True
    then show ?thesis by (subst star.simps) (simp add: line_part_def)
  next
    case False
    then have "star True (run s Dot) (a # r, c)
        = star True (run s Dot) (r, c) @ [(a # r, c)]"
      by (subst star.simps) simp
    also have "\<dots> = map (\<lambda>k. (drop (Suc k) (a # r), c)) (rev [0..<Suc (length (line_part r))])
                        @ [(a # r, c)]"
      by (simp only: Cons drop_Suc_Cons)
    also have "\<dots> = rev ((a # r, c) # map (\<lambda>k. (drop (Suc k) (a # r), c)) [0..<Suc (length (line_part r))])"
      by (simp only: rev.simps rev_map)
    also have "\<dots> = rev (map (\<lambda>k. (drop k (a # r), c)) [0..<Suc (Suc (length (line_part r)))])"
      by (simp only: upt_shift drop_0)
    finally show ?thesis
      using False by (simp add: line_part_def rev_map)
  qed
qed


lemma concat_map_skip:
  "(\<And>x. x \<in> set xs \<Longrightarrow> f x = []) \<Longrightarrow> concat (map f (xs @ ys)) = concat (map f ys)"
  by (induction xs) simp_all

lemma run_lazy_dots:
  "run s (Star False Dot) (r, c) = map (\<lambda>k. (drop k r, c)) [0..<Suc (length (line_part r))]"
  by (simp only: run.simps(9) lazy_dots)

lemma run_greedy_dots:
  "run s (Star True Dot) (r, c)
     = map (\<lambda>k. (drop k r, c)) (rev [0..<Suc (length (line_part r))])"
  by (simp only: run.simps(9) greedy_dots)







section \<open>Properties of the matcher's candidate paths\<close>

lemma endsWith_iff: "endsWith s p \<longleftrightarrow> (\<exists>stem. s = stem @ p)"
proof
  assume "endsWith s p"
  then have "s = take (length s - length p) s @ p"
    by (metis append_take_drop_id endsWith_def)
  then show "\<exists>stem. s = stem @ p" ..
next
  assume "\<exists>stem. s = stem @ p"
  then show "endsWith s p"
    by (auto simp: endsWith_def)
qed

text \<open>
  Claim C6. The candidate path of a wiki match whose name ends in \<^verbatim>\<open>.excalidraw\<close> is
  the attachment directory, a slash, and the whole name followed by \<^verbatim>\<open>.png\<close>: the
  suffix is appended, the extension is not replaced. The candidate path of every other
  wiki match is the attachment directory, a slash, and the name as it is.
\<close>

theorem wiki_candidate_path:
  "(group_text m 1 = stem @ ''.excalidraw'' \<longrightarrow>
      path (wiki_image st m) = attachmentLocation st @ ''/'' @ stem @ ''.excalidraw.png'')
   \<and> ((\<forall>stem'. group_text m 1 \<noteq> stem' @ ''.excalidraw'') \<longrightarrow>
      path (wiki_image st m) = attachmentLocation st @ ''/'' @ group_text m 1)
   \<and> name (wiki_image st m) = group_text m 1"
  by (auto simp: wiki_image_def Let_def endsWith_iff)

theorem wiki_candidate_path_witness:
  "map (\<lambda>m. path (wiki_image (publish_settings True False False False) m))
     (matchAll (''![[d.excalidraw]]'' @ [CHR 0x0A] @ ''![[p.webp|64]]'') WIKI_REGEX)
   = [''assets/d.excalidraw.png'', ''assets/p.webp'']"
proof -
  define st where "st = publish_settings True False False False"
  define ms where "ms = matchAll (''![[d.excalidraw]]'' @ [CHR 0x0A] @ ''![[p.webp|64]]'') WIKI_REGEX"
  have names: "map (\<lambda>m. group_text m 1) ms = [''d.excalidraw'', ''p.webp'']"
    unfolding ms_def by code_simp
  then obtain m1 m2 where ms: "ms = [m1, m2]"
    and m1: "group_text m1 1 = ''d'' @ ''.excalidraw''" and m2: "group_text m2 1 = ''p.webp''"
    by auto
  have dir: "attachmentLocation st = ''assets''"
    by (simp add: st_def publish_settings_def)
  have "path (wiki_image st m1) = attachmentLocation st @ ''/'' @ ''d'' @ ''.excalidraw.png''"
    using wiki_candidate_path [of m1 "''d''" st] m1 by blast
  moreover have "\<forall>stem'. group_text m2 1 \<noteq> stem' @ ''.excalidraw''"
  proof
    fix stem'
    have "last (stem' @ ''.excalidraw'') = CHR ''w''" by simp
    moreover have "last (group_text m2 1) = CHR ''p''" using m2 by simp
    ultimately show "group_text m2 1 \<noteq> stem' @ ''.excalidraw''" by auto
  qed
  then have "path (wiki_image st m2) = attachmentLocation st @ ''/'' @ group_text m2 1"
    using wiki_candidate_path [of m2 _ st] by blast
  ultimately show ?thesis
    unfolding ms_def [symmetric] st_def [symmetric] using m2 by (simp add: ms dir)
qed

section \<open>The path that is looked up and read\<close>

text \<open>
  Claim C9. For a wiki reference whose name ends in \<^verbatim>\<open>.excalidraw\<close>, the directory of
  the full path comes from resolving the candidate path with its \<^verbatim>\<open>.png\<close> suffix, and
  the file name of the full path is the name as matched, still ending in
  \<^verbatim>\<open>.excalidraw\<close> and without the suffix. This full path is the one whose existence is
  checked (after normalising) and the one whose content is read.
\<close>

theorem excalidraw_full_path:
  "group_text m 1 = stem @ ''.excalidraw'' \<Longrightarrow>
   (let candidate = attachmentLocation st @ ''/'' @ stem @ ''.excalidraw.png'';
        full = path_dirname h (getAvailablePathForAttachment h (normalizePath h candidate))
                 @ ''/'' @ stem @ ''.excalidraw''
    in fullPath (resolved h (wiki_image st m)) = full
       \<and> take 2 (fst (resolve_loop h (wiki_image st m # images)))
           = [GetAvailablePath (normalizePath h candidate), GetAbstractFile (normalizePath h full)]
       \<and> (getAbstractFileByPath h (normalizePath h full) \<noteq> None \<longrightarrow>
            fst (resolve_loop h (wiki_image st m # images)) ! 2 = ReadBinary full)
       \<and> (getAbstractFileByPath h (normalizePath h full) = None \<longrightarrow>
            snd (resolve_loop h (wiki_image st m # images)) = []))"
  by (auto simp: Let_def resolved_def wiki_image_def endsWith_iff split: prod.splits)

theorem excalidraw_full_path_witness:
  "group_text (hd (matchAll ''![[d.excalidraw]]'' WIKI_REGEX)) 1 = ''d.excalidraw''
   \<and> take 2 (fst (resolve_loop
          (vault_host ''![[d.excalidraw]]'' (\<lambda>p. p = ''assets/d.excalidraw'')
             (\<lambda>n. (0, Succeeds ''https://cdn/d.png'')))
          [wiki_image (publish_settings True False False False)
             (hd (matchAll ''![[d.excalidraw]]'' WIKI_REGEX))]))
       = [GetAvailablePath ''assets/d.excalidraw.png'', GetAbstractFile ''assets/d.excalidraw'']
   \<and> fst (resolve_loop
          (vault_host ''![[d.excalidraw]]'' (\<lambda>p. p = ''assets/d.excalidraw'')
             (\<lambda>n. (0, Succeeds ''https://cdn/d.png'')))
          [wiki_image (publish_settings True False False False)
             (hd (matchAll ''![[d.excalidraw]]'' WIKI_REGEX))]) ! 2
       = ReadBinary ''assets/d.excalidraw''"
proof -
  define st where "st = publish_settings True False False False"
  define h where "h = vault_host ''![[d.excalidraw]]'' (\<lambda>p. p = ''assets/d.excalidraw'')
                        (\<lambda>n. (0 :: nat, Succeeds ''https://cdn/d.png''))"
  define m where "m = hd (matchAll ''![[d.excalidraw]]'' WIKI_REGEX)"
  have m: "group_text m 1 = ''d'' @ ''.excalidraw''"
    unfolding m_def by code_simp
  note fact = excalidraw_full_path [OF m, of st h "[]", unfolded Let_def]
  have cand: "normalizePath h (attachmentLocation st @ ''/'' @ ''d'' @ ''.excalidraw.png'')
                = ''assets/d.excalidraw.png''"
    unfolding h_def st_def by code_simp
  have full: "normalizePath h (path_dirname h (getAvailablePathForAttachment h
                 ''assets/d.excalidraw.png'') @ ''/'' @ ''d'' @ ''.excalidraw'')
               = ''assets/d.excalidraw''"
    unfolding h_def st_def by code_simp
  have read: "path_dirname h (getAvailablePathForAttachment h
                 ''assets/d.excalidraw.png'') @ ''/'' @ ''d'' @ ''.excalidraw''
               = ''assets/d.excalidraw''"
    unfolding h_def st_def by code_simp
  have present: "getAbstractFileByPath h (normalizePath h ''assets/d.excalidraw'') \<noteq> None"
    unfolding h_def by code_simp
  have two: "take 2 (fst (resolve_loop h [wiki_image st m]))
               = [GetAvailablePath ''assets/d.excalidraw.png'', GetAbstractFile ''assets/d.excalidraw'']"
    using fact [THEN conjunct2, THEN conjunct1] unfolding cand full .
  have third: "fst (resolve_loop h [wiki_image st m]) ! 2 = ReadBinary ''assets/d.excalidraw''"
    using fact [THEN conjunct2, THEN conjunct2, THEN conjunct1] present unfolding cand read by blast
  from m two third show ?thesis
    unfolding st_def h_def m_def by simp
qed

section \<open>The action\<close>

lemma rewrite_loop_events:
  "set (snd (rewrite_loop st h v images)) \<subseteq> range Delete"
proof (induction images arbitrary: v)
  case Nil
  then show ?case by simp
next
  case (Cons img images)
  obtain v' evs where rest: "rewrite_loop st h (substitute st h v img) images = (v', evs)"
    by (cases "rewrite_loop st h (substitute st h v img) images")
  with Cons [of "substitute st h v img"] have "set evs \<subseteq> range Delete"
    by simp
  then show ?case
    by (auto simp: Let_def rest)
qed

text \<open>
  The switch on the action, for the calls that reach it. Once the uploads of a call
  have all succeeded, so that the handler runs: with any action other than the publish
  action the returned promise is rejected with the error \<^verbatim>\<open>invalid action!\<close> and
  nothing is put on the clipboard; with the publish action the final text is written to
  the clipboard, the notice of success is shown last, and the promise is fulfilled.
\<close>

theorem dispatch_action:
  assumes "getImageLists st h (getValue h) = Inr images"
    and "promise_all (map upload_promise (snd (resolve_loop h images))) = Fulfilled uploaded"
  shows "(action \<noteq> ACTION_PUBLISH \<longrightarrow>
            outcome (process st h action) = Rejected (Error ''invalid action!'')
            \<and> (\<forall>v. ClipboardWriteText v \<notin> set (finish_events (process st h action))))
       \<and> (action = ACTION_PUBLISH \<longrightarrow>
            outcome (process st h action) = Fulfilled ()
            \<and> (\<exists>evs. finish_events (process st h action) =
                  evs @ [ClipboardWriteText
                           (let v1 = fst (rewrite_loop st h (getValue h) uploaded)
                            in if ignoreProperties st
                               then replace_first_empty v1 PROPERTIES_REGEX else v1),
                         ShowNotice ''Copied to clipboard'']))"
proof -
  obtain evs started where loop: "resolve_loop h images = (evs, started)"
    by (cases "resolve_loop h images")
  obtain v1 dels where rw: "rewrite_loop st h (getValue h) uploaded = (v1, dels)"
    by (cases "rewrite_loop st h (getValue h) uploaded")
  have dels: "\<And>v. ClipboardWriteText v \<notin> set dels"
    using rewrite_loop_events [of st h "getValue h" uploaded] by (auto simp: rw)
  have run: "\<And>a. process st h a =
     (let (fevs, result) = finish st h a (getValue h) uploaded
      in \<lparr>loop_events = evs, upload_notices = failure_notices started,
          finish_events = fevs, outcome = result\<rparr>)"
    using assms by (simp add: process_def after_uploads_def loop)
  show ?thesis
    using dels by (auto simp: run finish_def rw Let_def)
qed

theorem dispatch_action_witness:
  "outcome (process (publish_settings True False False False)
       (vault_host ''![[cat.png]]'' (\<lambda>p. True) (\<lambda>n. (0, Succeeds ''https://cdn/x/cat.png'')))
       ''SAVE'') = Rejected (Error ''invalid action!'')
   \<and> outcome (process (publish_settings True False False False)
       (vault_host ''![[cat.png]]'' (\<lambda>p. True) (\<lambda>n. (0, Succeeds ''https://cdn/x/cat.png'')))
       ''PUBLISH'') = Fulfilled ()"
proof -
  define st where "st = publish_settings True False False False"
  define h where "h = vault_host ''![[cat.png]]'' (\<lambda>p. True)
                        (\<lambda>n. (0 :: nat, Succeeds ''https://cdn/x/cat.png''))"
  define images where "images = [\<lparr>name = ''cat.png'', path = ''assets/cat.png'', fullPath = [],
                                   url = [], source = ''![[cat.png]]''\<rparr>]"
  define uploaded where "uploaded = [\<lparr>name = ''cat.png'', path = ''assets/cat.png'',
       fullPath = ''assets/cat.png'', url = ''https://cdn/x/cat.png'', source = ''![[cat.png]]''\<rparr>]"
  have a: "getImageLists st h (getValue h) = Inr images"
    unfolding st_def h_def images_def by code_simp
  have b: "promise_all (map upload_promise (snd (resolve_loop h images))) = Fulfilled uploaded"
    unfolding h_def images_def uploaded_def by code_simp
  have "''SAVE'' \<noteq> ACTION_PUBLISH" and "''PUBLISH'' = ACTION_PUBLISH"
    by (simp_all add: ACTION_PUBLISH_def)
  then show ?thesis
    using dispatch_action [OF a b, of "''SAVE''"] dispatch_action [OF a b, of "''PUBLISH''"]
    unfolding st_def h_def by blast
qed

section \<open>The two loops\<close>

lemma resolve_loop_Cons:
  "resolve_loop h (img # images) =
     (if exists_locally h img
      then (found_events h img @ fst (resolve_loop h images),
            started_for h img # snd (resolve_loop h images))
      else (missing_events h img, []))"
  by (simp add: Let_def split_beta exists_locally_def found_events_def started_for_def
        missing_events_def resolved_def)

lemma rewrite_loop_Cons:
  "rewrite_loop st h v (img # images) =
     (fst (rewrite_loop st h (substitute st h v img) images),
      (if deleteAttachments st then [Delete (getAbstractFileByPath h (fullPath img))] else [])
        @ snd (rewrite_loop st h (substitute st h v img) images))"
  by (simp add: Let_def split_beta)

lemma rewrite_loop_text:
  "fst (rewrite_loop st h v images) = foldl (substitute st h) v images"
  by (induction images arbitrary: v) (simp_all add: rewrite_loop_Cons del: rewrite_loop.simps(2))

lemma upload_promise_retimed:
  "upload_promise (img, t, snd r) = upload_promise (img, r)"
  by (cases r) (simp add: upload_promise_def split: upload_result.splits)

lemma retimed_fields:
  "normalizePath (retimed h t) = normalizePath h"
  "getAbstractFileByPath (retimed h t) = getAbstractFileByPath h"
  "getAvailablePathForAttachment (retimed h t) = getAvailablePathForAttachment h"
  "readBinary (retimed h t) = readBinary h"
  "getBasePath (retimed h t) = getBasePath h"
  "path_dirname (retimed h t) = path_dirname h"
  "path_parse_name (retimed h t) = path_parse_name h"
  "decodeURI (retimed h t) = decodeURI h"
  "editorText (retimed h t) = editorText h"
  "upload (retimed h t) b n c = (t b n c, snd (upload h b n c))"
  by (simp_all add: retimed_def)

lemma resolve_loop_retimed:
  "fst (resolve_loop (retimed h t) images) = fst (resolve_loop h images)
   \<and> map upload_promise (snd (resolve_loop (retimed h t) images))
       = map upload_promise (snd (resolve_loop h images))"
proof (induction images)
  case Nil
  then show ?case by simp
next
  case (Cons img images)
  have same: "exists_locally (retimed h t) img = exists_locally h img"
    "found_events (retimed h t) img = found_events h img"
    "missing_events (retimed h t) img = missing_events h img"
    by (simp_all add: exists_locally_def found_events_def missing_events_def resolved_def
          retimed_fields)
  have "upload_promise (started_for (retimed h t) img) = upload_promise (started_for h img)"
    by (simp add: started_for_def resolved_def retimed_fields upload_promise_retimed)
  with Cons show ?case
    by (simp add: resolve_loop_Cons same del: resolve_loop.simps(2))
qed

lemma finish_retimed: "finish st (retimed h t) a v images = finish st h a v images"
proof -
  have "rewrite_loop st (retimed h t) v images = rewrite_loop st h v images" for v
    by (induction images arbitrary: v)
       (simp_all add: rewrite_loop_Cons substitute_def altText_def retimed_fields
          del: rewrite_loop.simps(2))
  then show ?thesis
    by (simp add: finish_def retimed_fields)
qed

lemma getImageLists_retimed: "getImageLists st (retimed h t) v = getImageLists st h v"
proof -
  have "md_images (retimed h t) ms = md_images h ms" for ms
    by (induction ms) (auto simp: retimed_fields split: option.splits sum.splits)
  then show ?thesis
    by (simp add: getImageLists_def)
qed

lemma process_retimed:
  "finish_events (process st (retimed h t) a) = finish_events (process st h a)
   \<and> outcome (process st (retimed h t) a) = outcome (process st h a)
   \<and> loop_events (process st (retimed h t) a) = loop_events (process st h a)"
proof (cases "getImageLists st h (getValue h)")
  case (Inl e)
  then show ?thesis
    by (simp add: process_def getImageLists_retimed getValue_def retimed_fields)
next
  case (Inr images)
  have v: "getValue (retimed h t) = getValue h"
    by (simp add: getValue_def retimed_fields)
  note same = resolve_loop_retimed [of h t images]
  show ?thesis
    by (simp add: process_def getImageLists_retimed v Inr split_beta after_uploads_def same
          finish_retimed split: promise.splits)
qed

lemma resolve_loop_started:
  "snd (resolve_loop h images)
     = map (started_for h) (take (length (snd (resolve_loop h images))) images)"
  by (induction images) (simp_all add: resolve_loop_Cons del: resolve_loop.simps(2))

lemma resolve_loop_halt:
  "list_all (exists_locally h) before \<Longrightarrow> \<not> exists_locally h k \<Longrightarrow>
   resolve_loop h (before @ k # after)
     = (concat (map (found_events h) before) @ missing_events h k, map (started_for h) before)"
  by (induction before) (simp_all add: resolve_loop_Cons del: resolve_loop.simps(2))

lemma resolve_loop_all:
  "list_all (exists_locally h) images \<Longrightarrow>
   resolve_loop h images = (concat (map (found_events h) images), map (started_for h) images)"
  by (induction images) (simp_all add: resolve_loop_Cons del: resolve_loop.simps(2))


section \<open>Failed uploads\<close>

lemma promise_all_upload_cases:
  "promise_all (map upload_promise started) =
     (if list_ex upload_failed started then Pending else Fulfilled (map with_url started))"
  by (induction started)
     (auto simp: upload_promise_def upload_failed_def with_url_def split: upload_result.splits)

text \<open>
  Claim C1, on the document with the two references \<^verbatim>\<open>![[a.png]]\<close> and
  \<^verbatim>\<open>![[b.png]]\<close> on two lines, both files present, where the upload of the first
  succeeds and the upload of the second fails with the message \<^verbatim>\<open>boom\<close>. The notice
  that names the failed reference and the message is shown. The promise of the failed
  upload is never settled, so the handler that rewrites the text never runs: the
  successful reference is not substituted, nothing is copied, and the promise that
  \<^verbatim>\<open>process\<close> returns stays pending.
\<close>

theorem failed_upload_blocks_rewriter:
  "process (publish_settings True False False False)
     (vault_host (''![[a.png]]'' @ [CHR 0x0A] @ ''![[b.png]]'') (\<lambda>p. True)
        (\<lambda>n. if n = ''a.png'' then (1, Succeeds ''https://cdn/a.png'') else (2, Fails ''boom'')))
     ''PUBLISH''
   = \<lparr>loop_events =
        [GetAvailablePath ''assets/a.png'', GetAbstractFile ''assets/a.png'',
         ReadBinary ''assets/a.png'',
         Upload ''<assets/a.png>'' ''a.png'' ''/vault/assets/a.png'',
         GetAvailablePath ''assets/b.png'', GetAbstractFile ''assets/b.png'',
         ReadBinary ''assets/b.png'',
         Upload ''<assets/b.png>'' ''b.png'' ''/vault/assets/b.png''],
      upload_notices =
        [''Upload assets/b.png failed, remote server returned an error: boom''],
      finish_events = [],
      outcome = Pending\<rparr>"
  by code_simp

text \<open>With any failed upload the handler does not run and the call never settles.\<close>

lemma failed_upload_pending:
  assumes "getImageLists st h (getValue h) = Inr images"
    and "list_ex upload_failed (snd (resolve_loop h images))"
  shows "outcome (process st h action) = Pending \<and> finish_events (process st h action) = []"
proof -
  obtain evs started where loop: "resolve_loop h images = (evs, started)"
    by (cases "resolve_loop h images")
  with assms(2) have "promise_all (map upload_promise started) = Pending"
    by (simp add: promise_all_upload_cases)
  then show ?thesis
    by (simp add: process_def assms(1) loop after_uploads_def)
qed

text \<open>
  Claim C8, on the document with the single reference \<^verbatim>\<open>![[b.png]]\<close>, its file
  present, whose upload fails with the message \<^verbatim>\<open>boom\<close>. With the action
  \<^verbatim>\<open>SAVE\<close>, which is not the publish action, no error is thrown: the switch on the
  action is never reached and the returned promise stays pending. With the publish
  action nothing is written to the clipboard and no success is signalled, and the
  promise stays pending as well.
\<close>

theorem action_not_dispatched_after_failed_upload:
  "process (publish_settings True False False False)
     (vault_host ''![[b.png]]'' (\<lambda>p. True) (\<lambda>n. (1, Fails ''boom''))) ''SAVE''
   = \<lparr>loop_events =
        [GetAvailablePath ''assets/b.png'', GetAbstractFile ''assets/b.png'',
         ReadBinary ''assets/b.png'',
         Upload ''<assets/b.png>'' ''b.png'' ''/vault/assets/b.png''],
      upload_notices =
        [''Upload assets/b.png failed, remote server returned an error: boom''],
      finish_events = [],
      outcome = Pending\<rparr>
   \<and> process (publish_settings True False False False)
     (vault_host ''![[b.png]]'' (\<lambda>p. True) (\<lambda>n. (1, Fails ''boom''))) ''PUBLISH''
   = \<lparr>loop_events =
        [GetAvailablePath ''assets/b.png'', GetAbstractFile ''assets/b.png'',
         ReadBinary ''assets/b.png'',
         Upload ''<assets/b.png>'' ''b.png'' ''/vault/assets/b.png''],
      upload_notices =
        [''Upload assets/b.png failed, remote server returned an error: boom''],
      finish_events = [],
      outcome = Pending\<rparr>"
  by code_simp

section \<open>The replacement text\<close>

text \<open>
  Claim C4, on the document \<^verbatim>\<open>![[price_$$.png]]\<close> with alt texts enabled and the URL
  \<^verbatim>\<open>https://cdn/p.png\<close>. The alt text is \<^verbatim>\<open>price $$\<close>, and the reference is replaced
  by \<^verbatim>\<open>![price $](https://cdn/p.png)\<close>: \<^verbatim>\<open>replaceAll\<close> reads the two dollar signs of
  the replacement text as the pattern for one.
\<close>

theorem dollar_in_replacement:
  "altText (publish_settings True False False False)
      (vault_host ''![[price_$$.png]]'' (\<lambda>p. True) (\<lambda>n. (0, Succeeds ''https://cdn/p.png'')))
      \<lparr>name = ''price_$$.png'', path = ''assets/price_$$.png'', fullPath = ''assets/price_$$.png'',
       url = ''https://cdn/p.png'', source = ''![[price_$$.png]]''\<rparr>
     = ''price $$''
   \<and> finish_events (process (publish_settings True False False False)
        (vault_host ''![[price_$$.png]]'' (\<lambda>p. True) (\<lambda>n. (0, Succeeds ''https://cdn/p.png'')))
        ''PUBLISH'')
     = [ClipboardWriteText ''![price $](https://cdn/p.png)'', ShowNotice ''Copied to clipboard'']"
  by code_simp

section \<open>The order of the substitutions\<close>

text \<open>
  Claim C3 as stated fails on \<open>two_on_a_line\<close>. The inline expression matches from
  the first \<^verbatim>\<open>![\<close> of the line, so the raw span of the inline reference contains the
  wiki reference. The upload of the inline reference settles first. In settle order
  the whole line would be replaced by the inline reference's markup; the code
  replaces the wiki reference first, after which the raw span of the inline reference
  no longer occurs.
\<close>

theorem substitution_order_counterexample:
  "getImageLists (publish_settings True False False False) two_on_a_line
       ''![[a.png]] ![x](b.png)''
     = Inr [\<lparr>name = ''a.png'', path = ''assets/a.png'', fullPath = [], url = [],
            source = ''![[a.png]]''\<rparr>,
           \<lparr>name = ''b.png'', path = ''b.png'', fullPath = [], url = [],
            source = ''![[a.png]] ![x](b.png)''\<rparr>]
   \<and> map name (settle_order (snd (resolve_loop two_on_a_line
          [\<lparr>name = ''a.png'', path = ''assets/a.png'', fullPath = [], url = [],
            source = ''![[a.png]]''\<rparr>,
           \<lparr>name = ''b.png'', path = ''b.png'', fullPath = [], url = [],
            source = ''![[a.png]] ![x](b.png)''\<rparr>])))
     = [''b.png'', ''a.png'']
   \<and> fst (rewrite_loop (publish_settings True False False False) two_on_a_line
       ''![[a.png]] ![x](b.png)''
       (settle_order (snd (resolve_loop two_on_a_line
          [\<lparr>name = ''a.png'', path = ''assets/a.png'', fullPath = [], url = [],
            source = ''![[a.png]]''\<rparr>,
           \<lparr>name = ''b.png'', path = ''b.png'', fullPath = [], url = [],
            source = ''![[a.png]] ![x](b.png)''\<rparr>]))))
     = ''![b](https://cdn/b.png)''
   \<and> finish_events (process (publish_settings True False False False) two_on_a_line ''PUBLISH'')
     = [ClipboardWriteText ''![a](https://cdn/a.png) ![x](b.png)'',
        ShowNotice ''Copied to clipboard'']"
  by code_simp

text \<open>
  Claim C3, amended. When every started upload succeeds, \<^verbatim>\<open>Promise.all\<close> hands the
  images over in the order of the promise array, which is the order in which the
  references were matched and resolved; the substitutions are applied one after the
  other in that order, each to the text the previous ones have produced; the text
  copied by the publish action is the result (after the optional stripping of the
  header). The moments at which the uploads settle have no influence on the handler's
  effects or on the outcome.
\<close>

theorem substitution_order:
  assumes "getImageLists st h (getValue h) = Inr images"
    and "resolve_loop h images = (evs, started)"
    and "\<not> list_ex upload_failed started"
  shows "promise_all (map upload_promise started) = Fulfilled (map with_url started)
     \<and> map fst started = map (resolved h) (take (length started) images)
     \<and> fst (rewrite_loop st h (getValue h) (map with_url started))
         = foldl (substitute st h) (getValue h) (map with_url started)
     \<and> ClipboardWriteText
          (let v1 = foldl (substitute st h) (getValue h) (map with_url started)
           in if ignoreProperties st then replace_first_empty v1 PROPERTIES_REGEX else v1)
         \<in> set (finish_events (process st h ACTION_PUBLISH))
     \<and> (\<forall>t a. finish_events (process st (retimed h t) a) = finish_events (process st h a)
              \<and> outcome (process st (retimed h t) a) = outcome (process st h a))"
proof -
  have all: "promise_all (map upload_promise started) = Fulfilled (map with_url started)"
    using assms(3) by (simp add: promise_all_upload_cases)
  have "started = map (started_for h) (take (length started) images)"
    using resolve_loop_started [of h images] by (simp add: assms(2))
  then have "map fst started = map fst (map (started_for h) (take (length started) images))"
    by simp
  then have order: "map fst started = map (resolved h) (take (length started) images)"
    by (simp add: started_for_def comp_def)
  have copied: "ClipboardWriteText
          (let v1 = foldl (substitute st h) (getValue h) (map with_url started)
           in if ignoreProperties st then replace_first_empty v1 PROPERTIES_REGEX else v1)
         \<in> set (finish_events (process st h ACTION_PUBLISH))"
    using rewrite_loop_text [of st h "getValue h" "map with_url started"]
    by (simp add: process_def assms(1,2) after_uploads_def all finish_def Let_def split_beta)
  show ?thesis
    using all order copied rewrite_loop_text process_retimed by blast
qed

theorem substitution_order_witness:
  "ClipboardWriteText ''![a](https://cdn/a.png) ![x](b.png)''
     \<in> set (finish_events (process (publish_settings True False False False) two_on_a_line
                ACTION_PUBLISH))"
proof -
  define st where "st = publish_settings True False False False"
  define images where "images =
     [\<lparr>name = ''a.png'', path = ''assets/a.png'', fullPath = [], url = [],
       source = ''![[a.png]]''\<rparr>,
      \<lparr>name = ''b.png'', path = ''b.png'', fullPath = [], url = [],
       source = ''![[a.png]] ![x](b.png)''\<rparr>]"
  define started where "started = snd (resolve_loop two_on_a_line images)"
  have a: "getImageLists st two_on_a_line (getValue two_on_a_line) = Inr images"
    unfolding st_def images_def by code_simp
  have b: "resolve_loop two_on_a_line images = (fst (resolve_loop two_on_a_line images), started)"
    by (simp add: started_def)
  have c: "\<not> list_ex upload_failed started"
    unfolding started_def images_def by code_simp
  have d: "(let v1 = foldl (substitute st two_on_a_line) (getValue two_on_a_line)
                       (map with_url started)
            in if ignoreProperties st then replace_first_empty v1 PROPERTIES_REGEX else v1)
           = ''![a](https://cdn/a.png) ![x](b.png)''"
    unfolding started_def images_def st_def by code_simp
  from substitution_order [OF a b c]
  have "ClipboardWriteText ''![a](https://cdn/a.png) ![x](b.png)''
          \<in> set (finish_events (process st two_on_a_line ACTION_PUBLISH))"
    unfolding d by blast
  then show ?thesis
    unfolding st_def .
qed

section \<open>A reference whose file is missing\<close>

text \<open>
  The halt of the first loop. Let \<open>k\<close> be the first reference whose file is not
  found. The first loop resolves, reads and uploads the references before \<open>k\<close>,
  looks \<open>k\<close> up, shows the notice and stops: the run is the one \<^verbatim>\<open>Promise.all\<close> and
  its handler make of the uploads of the references before \<open>k\<close> alone. The
  references after \<open>k\<close> play no part, and no upload is started for \<open>k\<close>. When the
  uploads before \<open>k\<close> all succeed, the handler substitutes exactly these references.
\<close>

theorem halt_at_first_missing:
  assumes "getImageLists st h (getValue h) = Inr (before @ k # after)"
    and "list_all (exists_locally h) before"
    and "\<not> exists_locally h k"
  shows "process st h action
           = after_uploads st h action
               (concat (map (found_events h) before) @ missing_events h k)
               (map (started_for h) before)
     \<and> loop_events (process st h action)
           = concat (map (found_events h) before) @ missing_events h k
     \<and> (\<not> list_ex upload_failed (map (started_for h) before) \<longrightarrow>
           finish_events (process st h action)
             = fst (finish st h action (getValue h) (map (with_url \<circ> started_for h) before))
           \<and> outcome (process st h action)
             = snd (finish st h action (getValue h) (map (with_url \<circ> started_for h) before)))"
proof -
  have run: "process st h action
           = after_uploads st h action
               (concat (map (found_events h) before) @ missing_events h k)
               (map (started_for h) before)"
    using assms by (simp add: process_def resolve_loop_halt)
  have "loop_events (after_uploads st h action evs started) = evs" for evs started
    by (simp add: after_uploads_def split_beta split: promise.splits)
  moreover have "\<not> list_ex upload_failed started \<Longrightarrow>
       finish_events (after_uploads st h action evs started)
         = fst (finish st h action (getValue h) (map with_url started))
       \<and> outcome (after_uploads st h action evs started)
         = snd (finish st h action (getValue h) (map with_url started))" for evs started
    by (simp add: after_uploads_def split_beta promise_all_upload_cases)
  ultimately show ?thesis
    by (simp add: run)
qed

theorem halt_at_first_missing_witness:
  "process (publish_settings True True False False) three_lines ''PUBLISH''
   = \<lparr>loop_events =
        [GetAvailablePath ''assets/a.png'', GetAbstractFile ''assets/a.png'',
         ReadBinary ''assets/a.png'',
         Upload ''<assets/a.png>'' ''a.png'' ''/vault/assets/a.png'',
         GetAvailablePath ''assets/b.png'', GetAbstractFile ''assets/b.png'',
         ShowNotice (''Can NOT locate b.png with assets/b.png, ''
            @ ''please check image path or attachment option in plugin setting!''),
         ConsoleLog ''assets/b.png not exist''],
      upload_notices = [],
      finish_events =
        [Delete (Some ''assets/a.png''),
         ClipboardWriteText (''![a](https://cdn/a.png)'' @ [CHR 0x0A] @ ''![[b.png]]''
            @ [CHR 0x0A] @ ''![[c.png]]''),
         ShowNotice ''Copied to clipboard''],
      outcome = Fulfilled ()\<rparr>"
proof -
  define st where "st = publish_settings True True False False"
  define a where "a = \<lparr>name = ''a.png'', path = ''assets/a.png'', fullPath = [], url = [],
                        source = ''![[a.png]]''\<rparr>"
  define b where "b = \<lparr>name = ''b.png'', path = ''assets/b.png'', fullPath = [], url = [],
                        source = ''![[b.png]]''\<rparr>"
  define c where "c = \<lparr>name = ''c.png'', path = ''assets/c.png'', fullPath = [], url = [],
                        source = ''![[c.png]]''\<rparr>"
  have 1: "getImageLists st three_lines (getValue three_lines) = Inr ([a] @ b # [c])"
    unfolding st_def a_def b_def c_def by code_simp
  have 2: "list_all (exists_locally three_lines) [a]"
    unfolding a_def by code_simp
  have 3: "\<not> exists_locally three_lines b"
    unfolding b_def by code_simp
  have "after_uploads st three_lines ''PUBLISH''
          (concat (map (found_events three_lines) [a]) @ missing_events three_lines b)
          (map (started_for three_lines) [a])
        = \<lparr>loop_events =
        [GetAvailablePath ''assets/a.png'', GetAbstractFile ''assets/a.png'',
         ReadBinary ''assets/a.png'',
         Upload ''<assets/a.png>'' ''a.png'' ''/vault/assets/a.png'',
         GetAvailablePath ''assets/b.png'', GetAbstractFile ''assets/b.png'',
         ShowNotice (''Can NOT locate b.png with assets/b.png, ''
            @ ''please check image path or attachment option in plugin setting!''),
         ConsoleLog ''assets/b.png not exist''],
      upload_notices = [],
      finish_events =
        [Delete (Some ''assets/a.png''),
         ClipboardWriteText (''![a](https://cdn/a.png)'' @ [CHR 0x0A] @ ''![[b.png]]''
            @ [CHR 0x0A] @ ''![[c.png]]''),
         ShowNotice ''Copied to clipboard''],
      outcome = Fulfilled ()\<rparr>"
    unfolding st_def a_def b_def by code_simp
  with halt_at_first_missing [OF 1 2 3, of "''PUBLISH''"] show ?thesis
    unfolding st_def by simp
qed

text \<open>
  Claim C2, on the document with the three references \<^verbatim>\<open>![[a.png]]\<close>,
  \<^verbatim>\<open>![[b.png]]\<close> and \<^verbatim>\<open>![[c.png]]\<close> on three lines, where the file of the third is
  missing, the upload of the first succeeds and the upload of the second fails. The
  loop halts at the third reference with its notice, after starting the two uploads.
  The outcome of the first upload is not honored: the promise of the failed upload is
  never settled, so the handler never runs, the first reference is not substituted,
  nothing is copied, and the promise that \<^verbatim>\<open>process\<close> returns stays pending.
\<close>

theorem success_before_missing_not_substituted:
  "process (publish_settings True True True False)
     (vault_host (''![[a.png]]'' @ [CHR 0x0A] @ ''![[b.png]]'' @ [CHR 0x0A] @ ''![[c.png]]'')
        (\<lambda>p. p \<noteq> ''assets/c.png'')
        (\<lambda>n. if n = ''a.png'' then (1, Succeeds ''https://cdn/a.png'') else (2, Fails ''boom'')))
     ''PUBLISH''
   = \<lparr>loop_events =
        [GetAvailablePath ''assets/a.png'', GetAbstractFile ''assets/a.png'',
         ReadBinary ''assets/a.png'',
         Upload ''<assets/a.png>'' ''a.png'' ''/vault/assets/a.png'',
         GetAvailablePath ''assets/b.png'', GetAbstractFile ''assets/b.png'',
         ReadBinary ''assets/b.png'',
         Upload ''<assets/b.png>'' ''b.png'' ''/vault/assets/b.png'',
         GetAvailablePath ''assets/c.png'', GetAbstractFile ''assets/c.png'',
         ShowNotice (''Can NOT locate c.png with assets/c.png, ''
            @ ''please check image path or attachment option in plugin setting!''),
         ConsoleLog ''assets/c.png not exist''],
      upload_notices =
        [''Upload assets/b.png failed, remote server returned an error: boom''],
      finish_events = [],
      outcome = Pending\<rparr>"
  by code_simp

section \<open>The order of the references\<close>

lemma suffix_by_length: "r = drop j s \<Longrightarrow> r = drop (length s - length r) s"
  by (cases "j \<le> length s") auto

lemma match_all_occurs:
  "r = drop (length s - length r) s \<Longrightarrow> list_all (occurs_at s) (match_all re s r)"
proof (induction re s r rule: match_all.induct)
  case (1 re s r)
  have tl: "r = a # r' \<Longrightarrow> r' = drop (length s - length r') s" for a r'
  proof -
    assume "r = a # r'"
    with "1.prems" have "r' = drop (Suc (length s - length r)) s"
      by (metis drop_Suc list.sel(3) tl_drop)
    then show ?thesis by (rule suffix_by_length)
  qed
  show ?case
  proof (cases "run s re (r, Map.empty)")
    case Nil
    then show ?thesis
      using "1.IH"(1) [OF Nil] tl
      by (subst match_all.simps) (auto split: list.splits)
  next
    case (Cons y ys)
    then have "y \<in> set (run s re (r, Map.empty))" by simp
    then obtain k where "fst y = drop k r"
      using run_consumes by fastforce
    with "1.prems" have "fst y = drop (length s - length r + k) s"
      by (metis add.commute drop_drop)
    then have y: "fst y = drop (length s - length (fst y)) s"
      by (rule suffix_by_length)
    have here: "occurs_at s (mk_match s r y)"
      using "1.prems" by (simp add: occurs_at_def mk_match_def)
    show ?thesis
      using "1.IH"(2) [OF Cons] "1.IH"(3) [OF Cons] tl y here
      by (subst match_all.simps) (auto simp: Cons split: list.splits)
  qed
qed

lemma matchAll_occurs: "list_all (occurs_at s) (matchAll s re)"
  by (simp add: matchAll_def match_all_occurs)

lemma matchAll_sorted: "sorted_wrt (<) (map index (matchAll s re))"
  by (simp add: matchAll_def match_all_sorted)

lemma md_images_sources:
  "md_images h ms = Inr images \<Longrightarrow>
   map source images = map matched (filter (\<lambda>m. \<not> is_remote m) ms)
   \<and> map (\<lambda>i. Some (name i)) images
       = map (\<lambda>m. decodeURI h (group_text m 2)) (filter (\<lambda>m. \<not> is_remote m) ms)
   \<and> map path images = map name images"
proof (induction ms arbitrary: images)
  case Nil
  then show ?case by simp
next
  case (Cons m ms)
  show ?case
  proof (cases "is_remote m")
    case True
    with Cons show ?thesis by (simp add: is_remote_def)
  next
    case False
    with Cons.prems obtain d rest where d: "decodeURI h (group_text m 2) = Some d"
      and rest: "md_images h ms = Inr rest"
      and images: "images = \<lparr>name = d, path = d, fullPath = [], url = [], source = matched m\<rparr> # rest"
      by (auto simp: is_remote_def split: option.splits sum.splits)
    from Cons.IH [OF rest] False d show ?thesis
      by (simp add: images)
  qed
qed

text \<open>
  Claim C5. When the matcher returns, its list is the images of the wiki matches
  followed by the images of the inline matches that are not remote. Each group
  follows its expression's matches, whose positions in the text increase strictly,
  and every match is the text found at its position.
\<close>

theorem wiki_then_inline:
  "getImageLists st h v = Inr images \<Longrightarrow>
   (\<exists>inline. images = map (wiki_image st) (matchAll v WIKI_REGEX) @ inline
      \<and> map source inline = map matched (filter (\<lambda>m. \<not> is_remote m) (matchAll v MD_REGEX)))
   \<and> map source (map (wiki_image st) (matchAll v WIKI_REGEX))
       = map matched (matchAll v WIKI_REGEX)
   \<and> sorted_wrt (<) (map index (matchAll v WIKI_REGEX))
   \<and> sorted_wrt (<) (map index (matchAll v MD_REGEX))
   \<and> list_all (occurs_at v) (matchAll v WIKI_REGEX)
   \<and> list_all (occurs_at v) (matchAll v MD_REGEX)"
proof -
  assume "getImageLists st h v = Inr images"
  then obtain inline where inline: "md_images h (matchAll v MD_REGEX) = Inr inline"
    and images: "images = map (wiki_image st) (matchAll v WIKI_REGEX) @ inline"
    by (auto simp: getImageLists_def Let_def split: sum.splits)
  have "map source (map (wiki_image st) (matchAll v WIKI_REGEX))
       = map matched (matchAll v WIKI_REGEX)"
    by (simp add: wiki_image_def Let_def)
  with md_images_sources [OF inline] images show ?thesis
    by (auto simp: matchAll_sorted matchAll_occurs)
qed


theorem wiki_then_inline_witness:
  "getImageLists (publish_settings True False False False)
      (vault_host [] (\<lambda>p. True) (\<lambda>n. (0, Fails [])))
      (''![x](b.png)'' @ [CHR 0x0A] @ ''![[a.png]]'')
     = Inr [\<lparr>name = ''a.png'', path = ''assets/a.png'', fullPath = [], url = [],
            source = ''![[a.png]]''\<rparr>,
           \<lparr>name = ''b.png'', path = ''b.png'', fullPath = [], url = [],
            source = ''![x](b.png)''\<rparr>]
   \<and> map index (matchAll (''![x](b.png)'' @ [CHR 0x0A] @ ''![[a.png]]'') WIKI_REGEX) = [12]
   \<and> map index (matchAll (''![x](b.png)'' @ [CHR 0x0A] @ ''![[a.png]]'') MD_REGEX) = [0]
   \<and> list_all (occurs_at (''![x](b.png)'' @ [CHR 0x0A] @ ''![[a.png]]''))
         (matchAll (''![x](b.png)'' @ [CHR 0x0A] @ ''![[a.png]]'') WIKI_REGEX)"
proof -
  have a: "getImageLists (publish_settings True False False False)
      (vault_host [] (\<lambda>p. True) (\<lambda>n. (0, Fails [])))
      (''![x](b.png)'' @ [CHR 0x0A] @ ''![[a.png]]'')
     = Inr [\<lparr>name = ''a.png'', path = ''assets/a.png'', fullPath = [], url = [],
            source = ''![[a.png]]''\<rparr>,
           \<lparr>name = ''b.png'', path = ''b.png'', fullPath = [], url = [],
            source = ''![x](b.png)''\<rparr>]"
    by code_simp
  have b: "map index (matchAll (''![x](b.png)'' @ [CHR 0x0A] @ ''![[a.png]]'') WIKI_REGEX) = [12]"
    by code_simp
  have c: "map index (matchAll (''![x](b.png)'' @ [CHR 0x0A] @ ''![[a.png]]'') MD_REGEX) = [0]"
    by code_simp
  from wiki_then_inline [OF a] a b c show ?thesis
    by blast
qed

section \<open>The header block\<close>





lemma no_header:
  assumes "\<not> startsWith v ''---''"
  shows "replace_first_empty v PROPERTIES_REGEX = v"
proof -
  have later: "length r < length v \<Longrightarrow> exec_from PROPERTIES_REGEX v r = None" for r
    by (induction r) (simp_all add: PROPERTIES_REGEX_def)
  have first: "run v PROPERTIES_REGEX (v, Map.empty) = []"
    using assms by (simp add: PROPERTIES_REGEX_def)
  have "exec_from PROPERTIES_REGEX v v = None"
  proof (cases v)
    case Nil
    with first show ?thesis by simp
  next
    case (Cons a r)
    with first later [of r] show ?thesis by simp
  qed
  then show ?thesis
    by (simp add: replace_first_empty_def)
qed





section \<open>What the wiki expression accepts after the extension\<close>

lemma line_part_one_line: "one_line r \<Longrightarrow> line_part r = r"
  by (simp add: one_line_def line_part_def list_all_iff)

lemma wiki_tail:
  assumes "one_line suffix"
  shows "\<exists>c'' more.
     run s (Seq (Opt True (Grp 3 (Alt Eps (Star True Dot)))) (Lit '']]'')) (suffix @ '']]'', c')
       = ([], c'') # more \<and> c'' 1 = c' 1 \<and> c'' 2 = c' 2"
proof -
  have "one_line (suffix @ '']]'')"
    using assms by (simp add: one_line_def is_line_terminator_def)
  then have lp: "line_part (suffix @ '']]'') = suffix @ '']]''"
    by (rule line_part_one_line)
  have stars: "run s (Star True Dot) (suffix @ '']]'', c')
     = map (\<lambda>k. (drop k (suffix @ '']]''), c')) (rev [0..<Suc (length (suffix @ '']]''))])"
    by (simp only: run_greedy_dots lp)
  define tail where "tail = suffix @ '']]''"
  have grp: "run s (Grp 3 (Alt Eps (Star True Dot))) (tail, c')
     = map (\<lambda>(r', cc). (r', cc(3 \<mapsto> take (length tail - length r') tail)))
         ((tail, c') # map (\<lambda>k. (drop k tail, c')) (rev [0..<Suc (length tail)]))"
    unfolding tail_def by (simp only: run.simps(5,7,8) prod.case stars append_Cons append_Nil)
  have opt: "run s (Seq (Opt True (Grp 3 (Alt Eps (Star True Dot)))) (Lit '']]'')) (tail, c')
     = concat (map (run s (Lit '']]''))
         (filter (\<lambda>y. length (fst y) < length tail)
            (map (\<lambda>(r', cc). (r', cc(3 \<mapsto> take (length tail - length r') tail)))
               ((tail, c') # map (\<lambda>k. (drop k tail, c')) (rev [0..<Suc (length tail)])))
          @ [(tail, c')]))"
    by (simp only: run.simps(6,11) Let_def if_True grp fst_conv)
  show ?thesis
  proof (cases suffix)
    case Nil
    show ?thesis
      unfolding tail_def [symmetric] opt
      by (simp add: tail_def startsWith_def Nil)
  next
    case (Cons a r)
    show ?thesis
      unfolding tail_def [symmetric] opt
      by (simp add: tail_def startsWith_def Cons)
  qed
qed


lemma first_success:
  assumes "n \<le> bound"
    and "\<And>k. k < n \<Longrightarrow> f (drop k w, c) = []"
    and "f (drop n w, c) = y # ys"
  shows "\<exists>more. concat (map f (map (\<lambda>k. (drop k w, c)) [0..<Suc bound])) = y # more"
proof -
  have "[0..<n + (Suc bound - n)] = [0..<n] @ [n..<n + (Suc bound - n)]"
    by (rule upt_add_eq_append) simp
  moreover have "n + (Suc bound - n) = Suc bound"
    using assms(1) by arith
  moreover have "[n..<Suc bound] = n # [Suc n..<Suc bound]"
    by (rule upt_conv_Cons) (use assms(1) in arith)
  ultimately have split: "[0..<Suc bound] = [0..<n] @ n # [Suc n..<Suc bound]"
    by (simp only:)
  have skip: "\<And>x. x \<in> set (map (\<lambda>k. (drop k w, c)) [0..<n]) \<Longrightarrow> f x = []"
    using assms(2) by auto
  have "concat (map f (map (\<lambda>k. (drop k w, c)) [0..<Suc bound]))
      = concat (map f (map (\<lambda>k. (drop k w, c)) (n # [Suc n..<Suc bound])))"
    unfolding split map_append [of "\<lambda>k. (drop k w, c)"]
    by (rule concat_map_skip [OF skip])
  also have "\<dots> = y # ys @ concat (map f (map (\<lambda>k. (drop k w, c)) [Suc n..<Suc bound]))"
    using assms(3) by simp
  finally show ?thesis by blast
qed

lemma no_extension_here:
  "\<not> dotted_extension_at r \<Longrightarrow> run s (Seq (Lit ''.'') (Grp 2 extensions)) (r, c) = []"
  by (cases r)
     (simp_all add: dotted_extension_at_def allowed_extensions_def extensions_def startsWith_def)

lemma extension_here:
  "ext \<in> set allowed_extensions \<Longrightarrow>
   run s (Seq (Lit ''.'') (Grp 2 extensions)) (''.'' @ ext @ tail, c) = [(tail, c(2 \<mapsto> ext))]"
  by (auto simp: allowed_extensions_def extensions_def startsWith_def)


lemma extension_has_no_dot:
  "e \<in> set allowed_extensions \<Longrightarrow> CHR ''.'' \<notin> set e"
  by (auto simp: allowed_extensions_def)

lemma dotted_extension_inside:
  assumes "a \<noteq> []" and "\<not> dotted_extension_at a"
  shows "\<not> dotted_extension_at (a @ CHR ''.'' # b)"
proof
  assume "dotted_extension_at (a @ CHR ''.'' # b)"
  then obtain e where e: "e \<in> set allowed_extensions"
    and starts: "take (Suc (length e)) (a @ CHR ''.'' # b) = CHR ''.'' # e"
    by (auto simp: dotted_extension_at_def list_ex_iff startsWith_def)
  show False
  proof (cases "Suc (length e) \<le> length a")
    case True
    with starts have "startsWith a (CHR ''.'' # e)"
      by (simp add: startsWith_def)
    with e assms(2) show False
      by (auto simp: dotted_extension_at_def list_ex_iff)
  next
    case False
    then have "take (Suc (length e)) (a @ CHR ''.'' # b)
                 = a @ CHR ''.'' # take (length e - length a) b"
      by (simp add: take_Cons' Suc_diff_le)
    with starts have "a @ CHR ''.'' # take (length e - length a) b = CHR ''.'' # e"
      by simp
    then have "tl (a @ CHR ''.'' # take (length e - length a) b) = tl (CHR ''.'' # e)"
      by (rule arg_cong)
    with assms(1) have "e = tl a @ CHR ''.'' # take (length e - length a) b"
      by simp
    then have "set e = set (tl a @ CHR ''.'' # take (length e - length a) b)"
      by (rule arg_cong)
    then have "CHR ''.'' \<in> set e"
      by simp
    with extension_has_no_dot [OF e] show False ..
  qed
qed

lemma wiki_name:
  assumes "ext \<in> set allowed_extensions"
    and "one_line nm"
    and "\<And>k. k < length nm \<Longrightarrow> \<not> dotted_extension_at (drop k nm)"
  shows "\<exists>more. run s (Grp 1 (Seq (Star False Dot) (Seq (Lit ''.'') (Grp 2 extensions))))
                 (nm @ ''.'' @ ext @ tail, c)
           = (tail, c(2 \<mapsto> ext, 1 \<mapsto> nm @ ''.'' @ ext)) # more"
proof -
  define w where "w = nm @ ''.'' @ ext @ tail"
  define f where "f = run s (Seq (Lit ''.'') (Grp 2 extensions))"
  have "line_part w = nm @ line_part (''.'' @ ext @ tail)"
    using assms(2) by (simp add: w_def line_part_def one_line_def list_all_iff)
  then have bound: "length nm \<le> length (line_part w)"
    by simp
  have before: "f (drop k w, c) = []" if "k < length nm" for k
  proof -
    from that have "drop k nm \<noteq> []" by simp
    from dotted_extension_inside [OF this assms(3) [OF that], of "ext @ tail"]
    have "\<not> dotted_extension_at (drop k w)"
      using that by (simp add: w_def)
    then show ?thesis
      unfolding f_def by (rule no_extension_here)
  qed
  have at: "f (drop (length nm) w, c) = (tail, c(2 \<mapsto> ext)) # []"
    unfolding f_def w_def using extension_here [OF assms(1), of s tail c] by simp
  from first_success [of "length nm" "length (line_part w)" f w c, OF bound before at]
  obtain more where more:
    "concat (map f (map (\<lambda>k. (drop k w, c)) [0..<Suc (length (line_part w))]))
       = (tail, c(2 \<mapsto> ext)) # more"
    by blast
  have "run s (Seq (Star False Dot) (Seq (Lit ''.'') (Grp 2 extensions))) (w, c)
          = (tail, c(2 \<mapsto> ext)) # more"
    unfolding run.simps(6) [of s "Star False Dot"] run_lazy_dots f_def [symmetric] more ..
  moreover have "take (length w - length tail) w = nm @ ''.'' @ ext"
    by (simp add: w_def)
  ultimately have "run s (Grp 1 (Seq (Star False Dot) (Seq (Lit ''.'') (Grp 2 extensions)))) (w, c)
      = (tail, c(2 \<mapsto> ext, 1 \<mapsto> nm @ ''.'' @ ext))
        # map (\<lambda>(r', c'). (r', c'(1 \<mapsto> take (length w - length r') w))) more"
    by (simp only: run.simps(8) prod.case list.map)
  then show ?thesis
    unfolding w_def by blast
qed


lemma match_all_first:
  "run s re (r, Map.empty) = y # ys \<Longrightarrow> length (fst y) < length r \<Longrightarrow>
   match_all re s r = mk_match s r y # match_all re s (fst y)"
  by (subst match_all.simps) simp

lemma wiki_first_match:
  assumes "ext \<in> set allowed_extensions"
    and "one_line nm"
    and "one_line suffix"
    and "\<And>k. k < length nm \<Longrightarrow> \<not> dotted_extension_at (drop k nm)"
  shows "\<exists>c'' more. run s WIKI_REGEX (''![['' @ nm @ ''.'' @ ext @ suffix @ '']]'', c)
                      = ([], c'') # more \<and> c'' 1 = Some (nm @ ''.'' @ ext)"
proof -
  let ?G1 = "Grp 1 (Seq (Star False Dot) (Seq (Lit ''.'') (Grp 2 extensions)))"
  let ?R2 = "Seq (Opt True (Grp 3 (Alt Eps (Star True Dot)))) (Lit '']]'')"
  define w where "w = nm @ ''.'' @ ext @ suffix @ '']]''"
  from wiki_name [OF assms(1,2,4), of s "suffix @ '']]''" c]
  obtain more1 where g1:
    "run s ?G1 (w, c) = (suffix @ '']]'', c(2 \<mapsto> ext, 1 \<mapsto> nm @ ''.'' @ ext)) # more1"
    unfolding w_def by blast
  from wiki_tail [OF assms(3), of s "c(2 \<mapsto> ext, 1 \<mapsto> nm @ ''.'' @ ext)"]
  obtain c'' more2 where r2:
    "run s ?R2 (suffix @ '']]'', c(2 \<mapsto> ext, 1 \<mapsto> nm @ ''.'' @ ext)) = ([], c'') # more2"
    and c'': "c'' 1 = (c(2 \<mapsto> ext, 1 \<mapsto> nm @ ''.'' @ ext)) 1"
    by blast
  have lit: "run s (Lit ''![['') (''![['' @ w, c) = [(w, c)]"
    by (simp add: startsWith_def)
  have "run s WIKI_REGEX (''![['' @ w, c)
          = concat (map (run s (Seq ?G1 ?R2)) (run s (Lit ''![['') (''![['' @ w, c)))"
    by (simp only: WIKI_REGEX_def run.simps(6))
  also have "\<dots> = run s (Seq ?G1 ?R2) (w, c)"
    by (simp only: lit list.map concat.simps append_Nil2)
  also have "\<dots> = concat (map (run s ?R2) (run s ?G1 (w, c)))"
    by (simp only: run.simps(6))
  also have "\<dots> = run s ?R2 (suffix @ '']]'', c(2 \<mapsto> ext, 1 \<mapsto> nm @ ''.'' @ ext))
                        @ concat (map (run s ?R2) more1)"
    by (simp only: g1 list.map concat.simps)
  also have "\<dots> = (([], c'') # more2) @ concat (map (run s ?R2) more1)"
    by (simp only: r2)
  finally have "run s WIKI_REGEX (''![['' @ w, c)
                  = ([], c'') # (more2 @ concat (map (run s ?R2) more1))"
    by (simp only: append_Cons)
  moreover from c'' have "c'' 1 = Some (nm @ ''.'' @ ext)"
    by simp
  ultimately show ?thesis
    unfolding w_def by blast
qed

lemma wiki_single_match:
  assumes "ext \<in> set allowed_extensions"
    and "one_line nm"
    and "one_line suffix"
    and "\<And>k. k < length nm \<Longrightarrow> \<not> dotted_extension_at (drop k nm)"
  shows "\<exists>m. matchAll (''![['' @ nm @ ''.'' @ ext @ suffix @ '']]'') WIKI_REGEX = [m]
            \<and> index m = 0
            \<and> matched m = ''![['' @ nm @ ''.'' @ ext @ suffix @ '']]''
            \<and> groups m 1 = Some (nm @ ''.'' @ ext)"
proof -
  define v where "v = ''![['' @ nm @ ''.'' @ ext @ suffix @ '']]''"
  from wiki_first_match [OF assms, of v Map.empty]
  obtain c'' more where first: "run v WIKI_REGEX (v, Map.empty) = ([], c'') # more"
    and c'': "c'' 1 = Some (nm @ ''.'' @ ext)"
    unfolding v_def by blast
  have "v \<noteq> []"
    by (simp add: v_def)
  then have "length (fst ([] :: string, c'')) < length v"
    by simp
  from match_all_first [OF first this]
  have "match_all WIKI_REGEX v v = mk_match v v ([], c'') # match_all WIKI_REGEX v []"
    by simp
  moreover have "match_all WIKI_REGEX v [] = []"
    by (subst match_all.simps) (simp add: WIKI_REGEX_def startsWith_def)
  ultimately have "matchAll v WIKI_REGEX = [mk_match v v ([], c'')]"
    by (simp add: matchAll_def)
  then show ?thesis
    unfolding v_def [symmetric] using c'' by (simp add: mk_match_def)
qed

text \<open>
  Claim C10 as stated fails: a suffix with a line feed holds no \<^verbatim>\<open>]]\<close>, and the
  string is not matched at all, since the dot of the expression matches no line
  terminator; and for the name \<^verbatim>\<open>v1.png.bak\<close> with the extension \<^verbatim>\<open>jpg\<close> the lazy
  quantifier stops at the first dot that an allowed extension follows, so the name of
  the reference is \<^verbatim>\<open>v1.png\<close>.
\<close>

theorem wiki_suffix_counterexample:
  "getImageLists (publish_settings True False False False)
      (vault_host [] (\<lambda>p. True) (\<lambda>n. (0, Fails [])))
      (''![['' @ ''a'' @ ''.'' @ ''png'' @ [CHR 0x0A] @ '']]'') = Inr []
   \<and> getImageLists (publish_settings True False False False)
      (vault_host [] (\<lambda>p. True) (\<lambda>n. (0, Fails [])))
      (''![['' @ ''v1.png.bak'' @ ''.'' @ ''jpg'' @ ''|64'' @ '']]'')
     = Inr [\<lparr>name = ''v1.png'', path = ''assets/v1.png'', fullPath = [], url = [],
            source = ''![[v1.png.bak.jpg|64]]''\<rparr>]"
  by code_simp

text \<open>
  Claim C10, amended. Take a name and a suffix without line terminator, the name
  holding no dot that an allowed extension follows, and an allowed extension. On the
  string made of \<^verbatim>\<open>![[\<close>, the name, a dot, the extension, the suffix and \<^verbatim>\<open>]]\<close> the
  wiki expression has exactly one match. It starts at position 0, its text is the whole
  string, suffix included, and its first group, the name of the reference, is the name,
  the dot and the extension. Nothing is asked of the first character of the suffix.
  Whenever the matcher returns, this reference is the first of its list.
\<close>

theorem wiki_suffix_accepted:
  assumes "ext \<in> set allowed_extensions"
    and "one_line nm"
    and "one_line suffix"
    and "\<forall>k. k < length nm \<longrightarrow> \<not> dotted_extension_at (drop k nm)"
  shows "\<exists>m. matchAll (''![['' @ nm @ ''.'' @ ext @ suffix @ '']]'') WIKI_REGEX = [m]
            \<and> index m = 0
            \<and> matched m = ''![['' @ nm @ ''.'' @ ext @ suffix @ '']]''
            \<and> name (wiki_image st m) = nm @ ''.'' @ ext
            \<and> source (wiki_image st m) = ''![['' @ nm @ ''.'' @ ext @ suffix @ '']]''
            \<and> (\<forall>h images.
                  getImageLists st h (''![['' @ nm @ ''.'' @ ext @ suffix @ '']]'') = Inr images
                  \<longrightarrow> (\<exists>inline. images = wiki_image st m # inline))"
proof -
  from assms(4) have "\<And>k. k < length nm \<Longrightarrow> \<not> dotted_extension_at (drop k nm)"
    by blast
  from wiki_single_match [OF assms(1,2,3) this]
  obtain m where m: "matchAll (''![['' @ nm @ ''.'' @ ext @ suffix @ '']]'') WIKI_REGEX = [m]"
    and at: "index m = 0"
    and whole: "matched m = ''![['' @ nm @ ''.'' @ ext @ suffix @ '']]''"
    and first: "groups m 1 = Some (nm @ ''.'' @ ext)"
    by blast
  have "name (wiki_image st m) = nm @ ''.'' @ ext"
    using first by (simp add: wiki_image_def group_text_def Let_def)
  moreover have "source (wiki_image st m) = ''![['' @ nm @ ''.'' @ ext @ suffix @ '']]''"
    using whole by (simp add: wiki_image_def Let_def)
  moreover have "\<exists>inline. images = wiki_image st m # inline"
    if "getImageLists st h (''![['' @ nm @ ''.'' @ ext @ suffix @ '']]'') = Inr images"
    for h images
    using that unfolding getImageLists_def Let_def m
    by (auto split: sum.splits)
  ultimately show ?thesis
    using m at whole by blast
qed

theorem wiki_suffix_accepted_witness:
  "map (\<lambda>m. (index m, matched m, name (wiki_image (publish_settings True False False False) m)))
     (matchAll ''![[cat.png 100x]]'' WIKI_REGEX)
   = [(0, ''![[cat.png 100x]]'', ''cat.png'')]"
proof -
  have 1: "''png'' \<in> set allowed_extensions"
    by (simp add: allowed_extensions_def)
  have 2: "one_line ''cat''" and 3: "one_line '' 100x''"
    by (simp_all add: one_line_def is_line_terminator_def)
  have 4: "\<forall>k. k < length ''cat'' \<longrightarrow> \<not> dotted_extension_at (drop k ''cat'')"
    by (auto simp: less_Suc_eq dotted_extension_at_def allowed_extensions_def startsWith_def)
  from wiki_suffix_accepted [OF 1 2 3 4, of "publish_settings True False False False"]
  show ?thesis
    by auto
qed

section \<open>Replacement texts without a dollar sign\<close>

lemma getSubstitution_plain:
  "CHR ''$'' \<notin> set rep \<Longrightarrow> getSubstitution m pre post rep = rep"
  by (induction m pre post rep rule: getSubstitution.induct) auto

lemma replaceAll_from_match:
  "pat \<noteq> [] \<Longrightarrow> startsWith rest pat \<Longrightarrow>
   replaceAll_from pat rep pre rest
     = getSubstitution pat pre (drop (length pat) rest) rep
         @ replaceAll_from pat rep (pre @ pat) (drop (length pat) rest)"
  by (subst replaceAll_from.simps) simp

lemma replaceAll_from_end:
  "replaceAll_from pat rep pre [] = []"
  by (subst replaceAll_from.simps) (auto simp: startsWith_def)

lemma replaceAll_from_skip:
  "\<not> (pat \<noteq> [] \<and> startsWith (c # cs) pat) \<Longrightarrow>
   replaceAll_from pat rep pre (c # cs) = c # replaceAll_from pat rep (pre @ [c]) cs"
  by (subst replaceAll_from.simps) auto

lemma replaceAll_from_pre:
  "CHR ''$'' \<notin> set rep \<Longrightarrow>
   replaceAll_from pat rep pre rest = replaceAll_from pat rep pre' rest"
proof (induction pat rep pre rest arbitrary: pre' rule: replaceAll_from.induct)
  case (1 pat rep pre rest)
  show ?case
  proof (cases "pat \<noteq> [] \<and> startsWith rest pat")
    case True
    from "1.IH"(1) [OF True "1.prems", of "pre' @ pat"] True "1.prems" show ?thesis
      by (simp add: replaceAll_from_match getSubstitution_plain)
  next
    case False
    show ?thesis
    proof (cases rest)
      case Nil
      then show ?thesis
        by (simp add: replaceAll_from_end)
    next
      case (Cons c cs)
      from "1.IH"(2) [OF False Cons "1.prems", of "pre' @ [c]"] False Cons show ?thesis
        by (simp add: replaceAll_from_skip)
    qed
  qed
qed

lemma replaceAll_plain:
  assumes "CHR ''$'' \<notin> set rep" and "pat \<noteq> []"
  shows "replaceAll [] pat rep = []
     \<and> replaceAll (pat @ s) pat rep = rep @ replaceAll s pat rep
     \<and> (\<not> startsWith (c # s) pat \<longrightarrow> replaceAll (c # s) pat rep = c # replaceAll s pat rep)"
proof -
  have 1: "replaceAll [] pat rep = []"
    using assms(2) by (simp add: replaceAll_def replaceAll_from_end)
  have "replaceAll_from pat rep [] (pat @ s)
          = rep @ replaceAll_from pat rep ([] @ pat) s"
    using assms by (simp add: replaceAll_from_match startsWith_def getSubstitution_plain)
  then have 2: "replaceAll (pat @ s) pat rep = rep @ replaceAll s pat rep"
    using assms replaceAll_from_pre [OF assms(1), of pat "[] @ pat" s "[]"]
    by (simp add: replaceAll_def)
  have 3: "replaceAll (c # s) pat rep = c # replaceAll s pat rep" if "\<not> startsWith (c # s) pat"
  proof -
    from that have "replaceAll_from pat rep [] (c # s) = c # replaceAll_from pat rep ([] @ [c]) s"
      by (simp add: replaceAll_from_skip)
    then show ?thesis
      using assms replaceAll_from_pre [OF assms(1), of pat "[] @ [c]" s "[]"]
      by (simp add: replaceAll_def)
  qed
  from 1 2 3 show ?thesis by blast
qed

lemma replaceAll_char:
  assumes "b \<noteq> CHR ''$''"
  shows "replaceAll s [a] [b] = map (\<lambda>c. if c = a then b else c) s"
proof (induction s)
  case Nil
  show ?case
    using replaceAll_plain [of "[b]" "[a]"] assms by simp
next
  case (Cons c s)
  show ?case
  proof (cases "c = a")
    case True
    from replaceAll_plain [of "[b]" "[a]" s] assms
    have "replaceAll ([a] @ s) [a] [b] = [b] @ replaceAll s [a] [b]" by simp
    with True Cons show ?thesis by simp
  next
    case False
    then have "\<not> startsWith (c # s) [a]" by (simp add: startsWith_def)
    with replaceAll_plain [of "[b]" "[a]" s c] assms
    have "replaceAll (c # s) [a] [b] = c # replaceAll s [a] [b]" by simp
    with False Cons show ?thesis by simp
  qed
qed


lemma altText_spaces:
  "altText st h img =
     (if imageAltText st
      then map (\<lambda>c. if c = CHR ''-'' \<or> c = CHR ''_'' then CHR '' '' else c)
             (path_parse_name h (name img))
      else [])"
  by (simp add: altText_def replaceAll_char)

text \<open>
  When neither the alt text nor the URL of a reference holds a dollar sign, the
  substitution replaces each occurrence of the raw span, found from left to right, by
  exactly the canonical markup, and copies every other character.
\<close>

theorem exact_replacement_without_dollar:
  assumes "CHR ''$'' \<notin> set (altText st h img)"
    and "CHR ''$'' \<notin> set (url img)"
    and "source img \<noteq> []"
  shows "substitute st h [] img = []
     \<and> substitute st h (source img @ s) img
         = ''!['' @ altText st h img @ '']('' @ url img @ '')'' @ substitute st h s img
     \<and> (\<not> startsWith (c # s) (source img) \<longrightarrow>
           substitute st h (c # s) img = c # substitute st h s img)"
proof -
  have "CHR ''$'' \<notin> set (''!['' @ altText st h img @ '']('' @ url img @ '')'')"
    using assms(1,2) by simp
  from replaceAll_plain [OF this assms(3), of s c] show ?thesis
    unfolding substitute_def by simp
qed

theorem exact_replacement_without_dollar_witness:
  "substitute (publish_settings True False False False)
      (vault_host ''![[cat.png]]'' (\<lambda>p. True) (\<lambda>n. (0, Succeeds ''https://cdn/x/cat.png'')))
      ''![[cat.png]]''
      \<lparr>name = ''cat.png'', path = ''assets/cat.png'', fullPath = ''assets/cat.png'',
       url = ''https://cdn/x/cat.png'', source = ''![[cat.png]]''\<rparr>
   = ''![cat](https://cdn/x/cat.png)''"
proof -
  define st where "st = publish_settings True False False False"
  define h where "h = vault_host ''![[cat.png]]'' (\<lambda>p. True)
                        (\<lambda>n. (0 :: nat, Succeeds ''https://cdn/x/cat.png''))"
  define img where "img = \<lparr>name = ''cat.png'', path = ''assets/cat.png'',
       fullPath = ''assets/cat.png'', url = ''https://cdn/x/cat.png'', source = ''![[cat.png]]''\<rparr>"
  have alt: "altText st h img = ''cat''"
    unfolding st_def h_def img_def by code_simp
  have 1: "CHR ''$'' \<notin> set (altText st h img)"
    by (simp add: alt)
  have 2: "CHR ''$'' \<notin> set (url img)" and 3: "source img \<noteq> []"
    by (simp_all add: img_def)
  from exact_replacement_without_dollar [OF 1 2 3, of "[]"]
  have "substitute st h (source img @ []) img
          = ''!['' @ altText st h img @ '']('' @ url img @ '')'' @ []"
    by simp
  then show ?thesis
    unfolding alt by (simp add: img_def st_def h_def)
qed

text \<open>The scenario of the specification: one wiki reference, found and uploaded.\<close>

theorem scenario_cat:
  "process (publish_settings True False False False)
     (vault_host ''![[cat.png]]'' (\<lambda>p. p = ''assets/cat.png'')
        (\<lambda>n. (0, Succeeds ''https://cdn/x/cat.png'')))
     ''PUBLISH''
   = \<lparr>loop_events =
        [GetAvailablePath ''assets/cat.png'', GetAbstractFile ''assets/cat.png'',
         ReadBinary ''assets/cat.png'',
         Upload ''<assets/cat.png>'' ''cat.png'' ''/vault/assets/cat.png''],
      upload_notices = [],
      finish_events =
        [ClipboardWriteText ''![cat](https://cdn/x/cat.png)'', ShowNotice ''Copied to clipboard''],
      outcome = Fulfilled ()\<rparr>"
  by code_simp

text \<open>An inline reference to a remote image is not extracted, and the text is copied
  unchanged.\<close>

theorem scenario_remote:
  "getImageLists (publish_settings True False False False)
      (vault_host ''![alt](http://ex.com/a.png)'' (\<lambda>p. True) (\<lambda>n. (0, Fails [])))
      ''![alt](http://ex.com/a.png)'' = Inr []
   \<and> finish_events (process (publish_settings True False False False)
      (vault_host ''![alt](http://ex.com/a.png)'' (\<lambda>p. True) (\<lambda>n. (0, Fails [])))
      ''PUBLISH'')
     = [ClipboardWriteText ''![alt](http://ex.com/a.png)'', ShowNotice ''Copied to clipboard'']"
  by code_simp

theorem failed_upload_pending_witness:
  "outcome (process (publish_settings True True True True)
      (vault_host ''![x](b.png)'' (\<lambda>p. True) (\<lambda>n. (3, Fails ''timeout''))) ''PUBLISH'')
     = Pending
   \<and> finish_events (process (publish_settings True True True True)
      (vault_host ''![x](b.png)'' (\<lambda>p. True) (\<lambda>n. (3, Fails ''timeout''))) ''PUBLISH'')
     = []"
proof -
  define h where "h = vault_host ''![x](b.png)'' (\<lambda>p. True) (\<lambda>n. (3 :: nat, Fails ''timeout''))"
  define images where "images = [\<lparr>name = ''b.png'', path = ''b.png'', fullPath = [], url = [],
                                   source = ''![x](b.png)''\<rparr>]"
  have a: "getImageLists (publish_settings True True True True) h (getValue h) = Inr images"
    unfolding h_def images_def by code_simp
  have b: "list_ex upload_failed (snd (resolve_loop h images))"
    unfolding h_def images_def by code_simp
  from failed_upload_pending [OF a b, of "''PUBLISH''"] show ?thesis
    unfolding h_def .
qed

theorem no_header_witness:
  "replace_first_empty (''body'' @ [CHR 0x0A] @ ''---'' @ [CHR 0x0A] @ ''x'' @ [CHR 0x0A]
       @ ''---'' @ [CHR 0x0A]) PROPERTIES_REGEX
   = ''body'' @ [CHR 0x0A] @ ''---'' @ [CHR 0x0A] @ ''x'' @ [CHR 0x0A] @ ''---'' @ [CHR 0x0A]"
proof -
  have "\<not> startsWith (''body'' @ [CHR 0x0A] @ ''---'' @ [CHR 0x0A] @ ''x'' @ [CHR 0x0A]
       @ ''---'' @ [CHR 0x0A]) ''---''"
    by (simp add: startsWith_def)
  then show ?thesis
    by (rule no_header)
qed

end
